theory Spec2Isabelle
  imports Complex_Main "HOL-Library.Char_ord" "HOL-Library.List_Lexorder"
begin

section \<open>Circuit model (types.ts)\<close>

datatype GateType = AND | OR | NOT | NAND | NOR | XOR | INPUT_SWITCH | OUTPUT_LAMP | CLOCK

record Position =
  posX :: real
  posY :: real

text \<open>
  \<^verbatim>\<open>CircuitNode\<close> and \<^verbatim>\<open>Wire\<close> of types.ts. The fields \<^verbatim>\<open>id\<close>, \<^verbatim>\<open>type\<close>,
  \<^verbatim>\<open>state\<close>, ... carry a prefix, since both interfaces share field names. Coordinates and
  sizes are JavaScript numbers, idealised as reals; no statement below depends on them.
\<close>

record CircuitNode =
  nodeId :: string
  nodeType :: GateType
  nodePosition :: Position
  nodeState :: bool
  nodeInputs :: "bool list"
  nodeWidth :: real
  nodeHeight :: real
  nodeLabel :: string
  nodeColor :: "string option"

datatype WireCurveType = bezier | straight | step

record Wire =
  wireId :: string
  sourceNodeId :: string
  sourcePinIndex :: nat
  targetNodeId :: string
  targetPinIndex :: nat
  wireState :: bool
  curveType :: "WireCurveType option"
  wireColor :: "string option"

section \<open>Propagation engine (services/circuitEngine.ts)\<close>

text \<open>\<^verbatim>\<open>xs[0]\<close> is \<^verbatim>\<open>undefined\<close> on an empty array; \<^verbatim>\<open>undefined\<close> is falsy.\<close>

definition firstInput :: "bool list \<Rightarrow> bool option" where
  "firstInput inputStates = (case inputStates of [] \<Rightarrow> None | b # _ \<Rightarrow> Some b)"

definition truthy :: "bool option \<Rightarrow> bool" where
  "truthy v = (case v of None \<Rightarrow> False | Some b \<Rightarrow> b)"

definition computeNodeLogic :: "CircuitNode \<Rightarrow> bool list \<Rightarrow> bool" where
  "computeNodeLogic node inputStates =
     (if length inputStates = 0 \<and> nodeType node \<noteq> INPUT_SWITCH \<and> nodeType node \<noteq> CLOCK
      then False
      else (case nodeType node of
              AND \<Rightarrow> list_all (\<lambda>s. s) inputStates
            | OR \<Rightarrow> list_ex (\<lambda>s. s) inputStates
            | NOT \<Rightarrow> \<not> truthy (firstInput inputStates)
            | NAND \<Rightarrow> \<not> list_all (\<lambda>s. s) inputStates
            | NOR \<Rightarrow> \<not> list_ex (\<lambda>s. s) inputStates
            | XOR \<Rightarrow> length (filter (\<lambda>s. s) inputStates) mod 2 = 1
            | INPUT_SWITCH \<Rightarrow> nodeState node
            | CLOCK \<Rightarrow> nodeState node
            | OUTPUT_LAMP \<Rightarrow> truthy (firstInput inputStates)))"

text \<open>
  \<^verbatim>\<open>nodeMap\<close> is filled by \<^verbatim>\<open>forEach(n => nodeMap.set(n.id, n))\<close>: of several nodes with one
  id the last one stays. The map holds the working copies themselves, so a lookup reads the
  node's current state.
\<close>

definition nodeMapGet :: "CircuitNode list \<Rightarrow> string \<Rightarrow> CircuitNode option" where
  "nodeMapGet nodes k = find (\<lambda>n. nodeId n = k) (rev nodes)"

text \<open>Phase 1 of a round: \<^verbatim>\<open>nextWires.forEach\<close>, threading \<^verbatim>\<open>stabilityReached\<close>.\<close>

fun updateWires :: "CircuitNode list \<Rightarrow> bool \<Rightarrow> Wire list \<Rightarrow> bool \<times> Wire list" where
  "updateWires nodes stabilityReached [] = (stabilityReached, [])"
| "updateWires nodes stabilityReached (wire # rest) =
     (case nodeMapGet nodes (sourceNodeId wire) of
        None \<Rightarrow>
          (case updateWires nodes stabilityReached rest of
             (s, rest') \<Rightarrow> (s, wire # rest'))
      | Some sourceNode \<Rightarrow>
          (if wireState wire \<noteq> nodeState sourceNode
           then (case updateWires nodes False rest of
                   (s, rest') \<Rightarrow> (s, wire\<lparr>wireState := nodeState sourceNode\<rparr> # rest'))
           else (case updateWires nodes stabilityReached rest of
                   (s, rest') \<Rightarrow> (s, wire # rest'))))"

text \<open>
  The signal of input pin \<open>i\<close>: the state of the first incoming wire whose target pin is
  \<open>i\<close>, or false when there is none.
\<close>

definition pinSignal :: "Wire list \<Rightarrow> nat \<Rightarrow> bool" where
  "pinSignal incomingWires i =
     (case find (\<lambda>w. targetPinIndex w = i) incomingWires of
        None \<Rightarrow> False
      | Some wire \<Rightarrow> wireState wire)"

text \<open>The \<^verbatim>\<open>for\<close> loop over the pins, on the pair (\<^verbatim>\<open>currentInputs\<close>, \<^verbatim>\<open>inputsChanged\<close>).\<close>

definition gatherInputs :: "Wire list \<Rightarrow> bool list \<Rightarrow> bool list \<times> bool" where
  "gatherInputs incomingWires inputs =
     fold (\<lambda>i (currentInputs, inputsChanged).
             if currentInputs ! i \<noteq> pinSignal incomingWires i
             then (currentInputs[i := pinSignal incomingWires i], True)
             else (currentInputs, inputsChanged))
          [0..<length inputs] (inputs, False)"

text \<open>The body of \<^verbatim>\<open>nextNodes.forEach\<close> for one node; the flag is \<^verbatim>\<open>stabilityReached\<close>.\<close>

definition updateNode :: "Wire list \<Rightarrow> bool \<Rightarrow> CircuitNode \<Rightarrow> bool \<times> CircuitNode" where
  "updateNode wires stabilityReached node =
     (if nodeType node = INPUT_SWITCH \<or> nodeType node = CLOCK then (stabilityReached, node)
      else
        (case gatherInputs (filter (\<lambda>w. targetNodeId w = nodeId node) wires) (nodeInputs node) of
           (currentInputs, inputsChanged) \<Rightarrow>
             if inputsChanged
             then (let node1 = node\<lparr>nodeInputs := currentInputs\<rparr>;
                       newOutputState = computeNodeLogic node1 currentInputs
                   in if nodeState node1 \<noteq> newOutputState
                      then (False, node1\<lparr>nodeState := newOutputState\<rparr>)
                      else (stabilityReached, node1))
             else (stabilityReached, node)))"

fun updateNodes :: "Wire list \<Rightarrow> bool \<Rightarrow> CircuitNode list \<Rightarrow> bool \<times> CircuitNode list" where
  "updateNodes wires stabilityReached [] = (stabilityReached, [])"
| "updateNodes wires stabilityReached (node # rest) =
     (case updateNode wires stabilityReached node of
        (s, node') \<Rightarrow>
          (case updateNodes wires s rest of
             (s', rest') \<Rightarrow> (s', node' # rest')))"

definition MAX_ITERATIONS :: nat where
  "MAX_ITERATIONS = 20"

text \<open>
  The \<^verbatim>\<open>while\<close> loop. The result keeps the final value of \<^verbatim>\<open>stabilityReached\<close> beside the
  snapshot.
\<close>

function propagateLoop ::
  "bool \<Rightarrow> nat \<Rightarrow> CircuitNode list \<Rightarrow> Wire list \<Rightarrow> bool \<times> CircuitNode list \<times> Wire list" where
  "propagateLoop stabilityReached iteration nodes wires =
     (if \<not> stabilityReached \<and> iteration < MAX_ITERATIONS
      then (case updateWires nodes True wires of
              (s1, wires') \<Rightarrow>
                (case updateNodes wires' s1 nodes of
                   (s2, nodes') \<Rightarrow> propagateLoop s2 (iteration + 1) nodes' wires'))
      else (stabilityReached, nodes, wires))"
  by pat_completeness auto
termination
  by (relation "measure (\<lambda>(s, i, n, w). MAX_ITERATIONS - i)") auto

declare propagateLoop.simps [simp del]

definition propagateCircuit :: "CircuitNode list \<Rightarrow> Wire list \<Rightarrow> CircuitNode list \<times> Wire list" where
  "propagateCircuit nodes wires = snd (propagateLoop False 0 nodes wires)"

text \<open>
  A node as the editor creates it (id, kind, input vector, output), with the geometry of a
  default gate; used to write concrete snapshots.
\<close>

definition gate :: "string \<Rightarrow> GateType \<Rightarrow> bool list \<Rightarrow> bool \<Rightarrow> CircuitNode" where
  "gate i k ins st =
     \<lparr>nodeId = i, nodeType = k, nodePosition = \<lparr>posX = 0, posY = 0\<rparr>, nodeState = st,
      nodeInputs = ins, nodeWidth = 120, nodeHeight = 60, nodeLabel = [], nodeColor = None\<rparr>"

definition wire :: "string \<Rightarrow> string \<Rightarrow> string \<Rightarrow> nat \<Rightarrow> bool \<Rightarrow> Wire" where
  "wire i src tgt pin st =
     \<lparr>wireId = i, sourceNodeId = src, sourcePinIndex = 0, targetNodeId = tgt,
      targetPinIndex = pin, wireState = st, curveType = None, wireColor = None\<rparr>"

section \<open>Auxiliary notions for the propagation engine\<close>

text \<open>
  One round of the loop, seen element by element: \<open>wireStep\<close> is what phase 1 does to a
  wire, \<open>nodeStep\<close> what phase 2 does to a node. The lemmas below show that the phases of
  the source compute exactly these maps.
\<close>

definition wireStep :: "CircuitNode list \<Rightarrow> Wire \<Rightarrow> Wire" where
  "wireStep nodes w =
     (case nodeMapGet nodes (sourceNodeId w) of
        None \<Rightarrow> w
      | Some sourceNode \<Rightarrow> w\<lparr>wireState := nodeState sourceNode\<rparr>)"

definition incoming :: "Wire list \<Rightarrow> CircuitNode \<Rightarrow> Wire list" where
  "incoming wires node = filter (\<lambda>w. targetNodeId w = nodeId node) wires"

definition signals :: "Wire list \<Rightarrow> CircuitNode \<Rightarrow> bool list" where
  "signals wires node = map (pinSignal (incoming wires node)) [0..<length (nodeInputs node)]"

definition nodeStep :: "Wire list \<Rightarrow> CircuitNode \<Rightarrow> CircuitNode" where
  "nodeStep wires node =
     (if nodeType node = INPUT_SWITCH \<or> nodeType node = CLOCK then node
      else if signals wires node = nodeInputs node then node
      else node\<lparr>nodeInputs := signals wires node,
                nodeState := computeNodeLogic node (signals wires node)\<rparr>)"

definition roundWires :: "CircuitNode list \<Rightarrow> Wire list \<Rightarrow> Wire list" where
  "roundWires ns ws = map (wireStep ns) ws"

definition roundNodes :: "CircuitNode list \<Rightarrow> Wire list \<Rightarrow> CircuitNode list" where
  "roundNodes ns ws = map (nodeStep (roundWires ns ws)) ns"

definition roundStable :: "CircuitNode list \<Rightarrow> Wire list \<Rightarrow> bool" where
  "roundStable ns ws =
     ((\<forall>w \<in> set ws. wireStep ns w = w) \<and>
      (\<forall>n \<in> set ns. nodeState (nodeStep (roundWires ns ws) n) = nodeState n))"

definition sameNode :: "CircuitNode \<Rightarrow> CircuitNode \<Rightarrow> bool" where
  "sameNode n n' =
     (n' = n\<lparr>nodeInputs := nodeInputs n', nodeState := nodeState n'\<rparr> \<and>
      length (nodeInputs n') = length (nodeInputs n))"

definition sameWire :: "Wire \<Rightarrow> Wire \<Rightarrow> bool" where
  "sameWire w w' = (w' = w\<lparr>wireState := wireState w'\<rparr>)"

definition logicOk :: "CircuitNode \<Rightarrow> bool" where
  "logicOk n = (nodeState n = computeNodeLogic n (nodeInputs n))"

definition keepsLogic :: "CircuitNode \<Rightarrow> CircuitNode \<Rightarrow> bool" where
  "keepsLogic n n' =
     (sameNode n n' \<and> (logicOk n \<or> nodeInputs n' \<noteq> nodeInputs n \<longrightarrow> logicOk n'))"

definition nonSource :: "CircuitNode \<Rightarrow> bool" where
  "nonSource n = (nodeType n \<noteq> INPUT_SWITCH \<and> nodeType n \<noteq> CLOCK)"

definition inputsFromWires :: "CircuitNode list \<Rightarrow> Wire list \<Rightarrow> bool" where
  "inputsFromWires ns ws = (\<forall>n \<in> set ns. nonSource n \<longrightarrow> nodeInputs n = signals ws n)"

definition fixpoint :: "CircuitNode list \<Rightarrow> Wire list \<Rightarrow> bool" where
  "fixpoint ns ws = (roundWires ns ws = ws \<and> roundNodes ns ws = ns)"

definition sameOutput :: "CircuitNode \<Rightarrow> CircuitNode \<Rightarrow> bool" where
  "sameOutput a b = (nodeId a = nodeId b \<and> nodeState a = nodeState b)"

fun rounds :: "nat \<Rightarrow> CircuitNode list \<Rightarrow> Wire list \<Rightarrow> CircuitNode list \<times> Wire list" where
  "rounds 0 ns ws = (ns, ws)"
| "rounds (Suc j) ns ws =
     (case rounds j ns ws of (ns', ws') \<Rightarrow> (roundNodes ns' ws', roundWires ns' ws'))"

definition Ns :: "CircuitNode list \<Rightarrow> Wire list \<Rightarrow> nat \<Rightarrow> CircuitNode list" where
  "Ns ns ws j = fst (rounds j ns ws)"

definition Ws :: "CircuitNode list \<Rightarrow> Wire list \<Rightarrow> nat \<Rightarrow> Wire list" where
  "Ws ns ws j = snd (rounds j ns ws)"

definition nodesFinal :: "(string \<Rightarrow> nat) \<Rightarrow> CircuitNode list \<Rightarrow> Wire list \<Rightarrow> nat \<Rightarrow> bool" where
  "nodesFinal rank ns ws k =
     (\<forall>d. \<forall>i < length ns. rank (nodeId (ns ! i)) < k \<longrightarrow> Ns ns ws (k + d) ! i = Ns ns ws k ! i)"

definition wiresFinal :: "(string \<Rightarrow> nat) \<Rightarrow> CircuitNode list \<Rightarrow> Wire list \<Rightarrow> nat \<Rightarrow> bool" where
  "wiresFinal rank ns ws k =
     (\<forall>d. \<forall>m < length ws. rank (sourceNodeId (ws ! m)) < k \<longrightarrow>
        Ws ns ws (Suc k + d) ! m = Ws ns ws (Suc k) ! m)"

text \<open>
  A chain of one-input OR gates, each wired to the next, with all stored signals high and
  nothing driving the first gate: the snapshot left behind when the wire from a switch to
  the head of the chain is deleted.
\<close>

definition chainId :: "nat \<Rightarrow> string" where
  "chainId k = replicate (Suc k) CHR ''g''"

definition chainNodes :: "nat \<Rightarrow> CircuitNode list" where
  "chainNodes m = map (\<lambda>k. gate (chainId k) OR [True] True) [0..<Suc m]"

definition chainWires :: "nat \<Rightarrow> Wire list" where
  "chainWires m = map (\<lambda>k. wire (chainId k) (chainId k) (chainId (Suc k)) 0 True) [0..<m]"

section \<open>The propagation engine on a store of input arrays\<close>

text \<open>
  The source copies every node and wire object field by field
  (\<^verbatim>\<open>nodes.map(n => ({...n}))\<close>, \<^verbatim>\<open>wires.map(w => ({...w}))\<close>); a copied node still
  refers to the \<^verbatim>\<open>inputs\<close> array of the original. This second model keeps that
  sharing: the boolean arrays live in a store (a list indexed by address, allocation
  appends), a node object holds the address of its input array, and the three writes of
  phase 2 are writes in the store: \<^verbatim>\<open>[...node.inputs]\<close> allocates a copy,
  \<^verbatim>\<open>currentInputs[i] = signal\<close> updates that copy in place, and
  \<^verbatim>\<open>node.inputs = currentInputs\<close> redirects the working node. It is shown below to
  compute what \<open>propagateCircuit\<close> computes, and never to write to an array that
  existed before the call.
\<close>

record NodeObj =
  objId :: string
  objType :: GateType
  objPosition :: Position
  objState :: bool
  objInputs :: nat
  objWidth :: real
  objHeight :: real
  objLabel :: string
  objColor :: "string option"

definition readNode :: "bool list list \<Rightarrow> NodeObj \<Rightarrow> CircuitNode" where
  "readNode arrays obj =
     \<lparr>nodeId = objId obj, nodeType = objType obj, nodePosition = objPosition obj,
      nodeState = objState obj, nodeInputs = arrays ! objInputs obj, nodeWidth = objWidth obj,
      nodeHeight = objHeight obj, nodeLabel = objLabel obj, nodeColor = objColor obj\<rparr>"

definition nodeMapGetS :: "NodeObj list \<Rightarrow> string \<Rightarrow> NodeObj option" where
  "nodeMapGetS nodes k = find (\<lambda>n. objId n = k) (rev nodes)"

fun updateWiresS :: "NodeObj list \<Rightarrow> bool \<Rightarrow> Wire list \<Rightarrow> bool \<times> Wire list" where
  "updateWiresS nodes stabilityReached [] = (stabilityReached, [])"
| "updateWiresS nodes stabilityReached (w # rest) =
     (case nodeMapGetS nodes (sourceNodeId w) of
        None \<Rightarrow>
          (case updateWiresS nodes stabilityReached rest of
             (s, rest') \<Rightarrow> (s, w # rest'))
      | Some sourceNode \<Rightarrow>
          (if wireState w \<noteq> objState sourceNode
           then (case updateWiresS nodes False rest of
                   (s, rest') \<Rightarrow> (s, w\<lparr>wireState := objState sourceNode\<rparr> # rest'))
           else (case updateWiresS nodes stabilityReached rest of
                   (s, rest') \<Rightarrow> (s, w # rest'))))"

definition gatherInputsS :: "Wire list \<Rightarrow> nat \<Rightarrow> bool list list \<Rightarrow> bool list list \<times> bool" where
  "gatherInputsS incomingWires a arrays =
     fold (\<lambda>i (arrs, inputsChanged).
             if arrs ! a ! i \<noteq> pinSignal incomingWires i
             then (arrs[a := (arrs ! a)[i := pinSignal incomingWires i] ], True)
             else (arrs, inputsChanged))
          [0..<length (arrays ! a)] (arrays, False)"

definition updateNodeS ::
  "Wire list \<Rightarrow> bool \<Rightarrow> bool list list \<Rightarrow> NodeObj \<Rightarrow> bool \<times> bool list list \<times> NodeObj" where
  "updateNodeS wires stabilityReached arrays node =
     (if objType node = INPUT_SWITCH \<or> objType node = CLOCK then (stabilityReached, arrays, node)
      else
        (let currentInputs = length arrays;
             arrays1 = arrays @ [arrays ! objInputs node]
         in case gatherInputsS (filter (\<lambda>w. targetNodeId w = objId node) wires)
                   currentInputs arrays1 of
              (arrays2, inputsChanged) \<Rightarrow>
                if inputsChanged
                then (let node1 = node\<lparr>objInputs := currentInputs\<rparr>;
                          newOutputState =
                            computeNodeLogic (readNode arrays2 node1) (arrays2 ! currentInputs)
                      in if objState node1 \<noteq> newOutputState
                         then (False, arrays2, node1\<lparr>objState := newOutputState\<rparr>)
                         else (stabilityReached, arrays2, node1))
                else (stabilityReached, arrays2, node)))"

fun updateNodesS ::
  "Wire list \<Rightarrow> bool \<Rightarrow> bool list list \<Rightarrow> NodeObj list \<Rightarrow> bool \<times> bool list list \<times> NodeObj list" where
  "updateNodesS wires stabilityReached arrays [] = (stabilityReached, arrays, [])"
| "updateNodesS wires stabilityReached arrays (node # rest) =
     (case updateNodeS wires stabilityReached arrays node of
        (s, arrays1, node') \<Rightarrow>
          (case updateNodesS wires s arrays1 rest of
             (s', arrays2, rest') \<Rightarrow> (s', arrays2, node' # rest')))"

function propagateLoopS ::
  "bool \<Rightarrow> nat \<Rightarrow> bool list list \<Rightarrow> NodeObj list \<Rightarrow> Wire list \<Rightarrow>
   bool \<times> bool list list \<times> NodeObj list \<times> Wire list" where
  "propagateLoopS stabilityReached iteration arrays nodes wires =
     (if \<not> stabilityReached \<and> iteration < MAX_ITERATIONS
      then (case updateWiresS nodes True wires of
              (s1, wires') \<Rightarrow>
                (case updateNodesS wires' s1 arrays nodes of
                   (s2, arrays', nodes') \<Rightarrow>
                     propagateLoopS s2 (iteration + 1) arrays' nodes' wires'))
      else (stabilityReached, arrays, nodes, wires))"
  by pat_completeness auto
termination
  by (relation "measure (\<lambda>(s, i, a, n, w). MAX_ITERATIONS - i)") auto

declare propagateLoopS.simps [simp del]

definition propagateCircuitS ::
  "bool list list \<Rightarrow> NodeObj list \<Rightarrow> Wire list \<Rightarrow> bool list list \<times> NodeObj list \<times> Wire list" where
  "propagateCircuitS arrays nodes wires = snd (propagateLoopS False 0 arrays nodes wires)"

definition extends :: "'a list \<Rightarrow> 'a list \<Rightarrow> bool" where
  "extends xs ys = (take (length xs) ys = xs)"

definition validRefs :: "bool list list \<Rightarrow> NodeObj list \<Rightarrow> bool" where
  "validRefs arrays nodes = (\<forall>n \<in> set nodes. objInputs n < length arrays)"

definition sameObj :: "NodeObj \<Rightarrow> NodeObj \<Rightarrow> bool" where
  "sameObj n n' = (n' = n\<lparr>objInputs := objInputs n', objState := objState n'\<rparr>)"

definition gateObj :: "string \<Rightarrow> GateType \<Rightarrow> nat \<Rightarrow> bool \<Rightarrow> NodeObj" where
  "gateObj i k ref st =
     \<lparr>objId = i, objType = k, objPosition = \<lparr>posX = 0, posY = 0\<rparr>, objState = st,
      objInputs = ref, objWidth = 120, objHeight = 60, objLabel = [], objColor = None\<rparr>"

section \<open>Minimizer (services/quineMcCluskey.ts)\<close>

text \<open>
  A term is a JavaScript string over \<open>0\<close>, \<open>1\<close> and \<open>-\<close>. \<^verbatim>\<open>t[i]\<close> is
  \<^verbatim>\<open>undefined\<close> beyond the end of the string, which \<open>charAt\<close> renders as \<open>None\<close>.
  \<open>combineScan\<close> is the \<^verbatim>\<open>for\<close> loop of \<^verbatim>\<open>combineTerms\<close> over the indices of \<open>t1\<close>
  with the variable \<^verbatim>\<open>diffIndex\<close> (\<open>None\<close> for -1); its result \<open>None\<close> is the early
  \<^verbatim>\<open>return null\<close>.
\<close>

definition charAt :: "string \<Rightarrow> nat \<Rightarrow> char option" where
  "charAt t i = (if i < length t then Some (t ! i) else None)"

fun combineScan :: "string \<Rightarrow> string \<Rightarrow> nat list \<Rightarrow> nat option \<Rightarrow> nat option option" where
  "combineScan t1 t2 [] diffIndex = Some diffIndex"
| "combineScan t1 t2 (i # rest) diffIndex =
     (if charAt t1 i \<noteq> charAt t2 i
      then (if diffIndex \<noteq> None then None else combineScan t1 t2 rest (Some i))
      else combineScan t1 t2 rest diffIndex)"

definition combineTerms :: "string \<Rightarrow> string \<Rightarrow> string option" where
  "combineTerms t1 t2 =
     (case combineScan t1 t2 [0..<length t1] None of
        None \<Rightarrow> None
      | Some None \<Rightarrow> None
      | Some (Some diffIndex) \<Rightarrow> Some (take diffIndex t1 @ ''-'' @ drop (diffIndex + 1) t1))"

text \<open>
  \<^verbatim>\<open>m.toString(2)\<close> for a natural number, and \<^verbatim>\<open>padStart\<close>. Minterms are modelled as
  naturals, the length test against \<^verbatim>\<open>Math.pow(2, numVars)\<close> as exact arithmetic.
\<close>

function toBinary :: "nat \<Rightarrow> string" where
  "toBinary m = (if m < 2 then [if m = 0 then CHR ''0'' else CHR ''1'']
                 else toBinary (m div 2) @ [if m mod 2 = 0 then CHR ''0'' else CHR ''1''])"
  by pat_completeness auto
termination
  by (relation "measure (\<lambda>m. m)") auto

declare toBinary.simps [simp del]

definition padStart :: "string \<Rightarrow> nat \<Rightarrow> char \<Rightarrow> string" where
  "padStart s n c = replicate (n - length s) c @ s"

text \<open>
  \<^verbatim>\<open>Set.add\<close> and \<^verbatim>\<open>Map.set\<close> of a new key keep insertion order and ignore a value
  already present; sets and map keys are lists without duplicates in insertion order.
  \<open>innerLoop\<close> and \<open>outerLoop\<close> are the two nested \<^verbatim>\<open>for\<close> loops on the pair
  (\<^verbatim>\<open>nextTerms\<close>, \<^verbatim>\<open>usedTerms\<close>); the test \<^verbatim>\<open>if (combined)\<close> is false for
  \<^verbatim>\<open>null\<close> and for the empty string.
\<close>

definition setAdd :: "'a list \<Rightarrow> 'a \<Rightarrow> 'a list" where
  "setAdd xs x = (if x \<in> set xs then xs else xs @ [x])"

fun innerLoop :: "string \<Rightarrow> string list \<Rightarrow> string list \<times> string list \<Rightarrow> string list \<times> string list" where
  "innerLoop ti [] acc = acc"
| "innerLoop ti (tj # rest) (nextTerms, usedTerms) =
     (case combineTerms ti tj of
        None \<Rightarrow> innerLoop ti rest (nextTerms, usedTerms)
      | Some combined \<Rightarrow>
          if combined = [] then innerLoop ti rest (nextTerms, usedTerms)
          else innerLoop ti rest (setAdd nextTerms combined, setAdd (setAdd usedTerms ti) tj))"

fun outerLoop :: "string list \<Rightarrow> string list \<times> string list \<Rightarrow> string list \<times> string list" where
  "outerLoop [] acc = acc"
| "outerLoop (ti # rest) acc = outerLoop rest (innerLoop ti rest acc)"

definition collectPrimes :: "string list \<Rightarrow> string list \<Rightarrow> string list \<Rightarrow> string list" where
  "collectPrimes currentTerms usedTerms primeImplicants =
     fold (\<lambda>t pis. if t \<notin> set usedTerms then setAdd pis t else pis) currentTerms primeImplicants"

text \<open>
  The \<^verbatim>\<open>while (currentTerms.length > 0)\<close> loop. Nothing in its text bounds the number of
  rounds, so it is a partial function: \<open>None\<close> stands for a loop that does not return.
\<close>

partial_function (option) qmLoop :: "string list \<Rightarrow> string list \<Rightarrow> string list option" where
  "qmLoop currentTerms primeImplicants =
     (if length currentTerms > 0
      then (case outerLoop currentTerms ([], []) of
              (nextTerms, usedTerms) \<Rightarrow>
                if length nextTerms = 0
                then Some (collectPrimes currentTerms usedTerms primeImplicants)
                else qmLoop nextTerms (collectPrimes currentTerms usedTerms primeImplicants))
      else Some primeImplicants)"

declare qmLoop.simps [code]

text \<open>
  \<^verbatim>\<open>Array.prototype.sort\<close> without a comparator orders strings by code units, which on
  the characters that occur here is the lexicographic order of \<open>char list\<close>.
\<close>

definition solveQuineMcCluskey :: "nat \<Rightarrow> nat list \<Rightarrow> string list option" where
  "solveQuineMcCluskey numVars minterms =
     (if length minterms = 0 then Some []
      else if length minterms = 2 ^ numVars then Some [replicate numVars CHR ''-'']
      else map_option sort
             (qmLoop (fold (\<lambda>m groups. setAdd groups (padStart (toBinary m) numVars CHR ''0''))
                           minterms [])
                     []))"

section \<open>Auxiliary notions for the minimizer\<close>

text \<open>
  Well-formed terms of a generation (\<open>isTerm n k\<close>: length \<open>n\<close>, alphabet \<open>0 1 -\<close>,
  exactly \<open>k\<close> don't-cares), fully specified assignments as bit strings, and the
  assignments a term covers. \<open>varValue\<close>, \<open>evalTerm\<close> and \<open>evalTerms\<close> give a term
  sequence its meaning as a sum of products, the reading that \<^verbatim>\<open>termsToEquation\<close> prints:
  position \<open>i\<close> holds \<open>1\<close> for variable \<open>i\<close>, \<open>0\<close> for its negation and \<open>-\<close> for
  no literal, and variable \<open>i\<close> of assignment \<open>a\<close> is the digit at position \<open>i\<close> of the
  binary numeral of \<open>a\<close> padded to \<open>numVars\<close> digits (most significant first).
\<close>

definition differs :: "string \<Rightarrow> string \<Rightarrow> nat \<Rightarrow> bool" where
  "differs t1 t2 i = (charAt t1 i \<noteq> charAt t2 i)"

definition isTerm :: "nat \<Rightarrow> nat \<Rightarrow> string \<Rightarrow> bool" where
  "isTerm n k t =
     (length t = n \<and> set t \<subseteq> {CHR ''0'', CHR ''1'', CHR ''-''} \<and>
      length (filter (\<lambda>c. c = CHR ''-'') t) = k)"

definition isBits :: "nat \<Rightarrow> string \<Rightarrow> bool" where
  "isBits n b = (length b = n \<and> set b \<subseteq> {CHR ''0'', CHR ''1''})"

definition covers :: "string \<Rightarrow> string \<Rightarrow> bool" where
  "covers t b = (length t = length b \<and> (\<forall>i < length t. t ! i = CHR ''-'' \<or> t ! i = b ! i))"

fun pairsOf :: "'a list \<Rightarrow> ('a \<times> 'a) set" where
  "pairsOf [] = {}"
| "pairsOf (x # xs) = (\<lambda>y. (x, y)) ` set xs \<union> pairsOf xs"

definition nextSet :: "string set \<Rightarrow> string set" where
  "nextSet S = {c. \<exists>a \<in> S. \<exists>b \<in> S. combineTerms a b = Some c}"

definition usedSet :: "string set \<Rightarrow> string set" where
  "usedSet S = {a \<in> S. \<exists>b \<in> S. combineTerms a b \<noteq> None}"

definition nextTermsOf :: "string list \<Rightarrow> string list" where
  "nextTermsOf cur = fst (outerLoop cur ([], []))"

definition usedTermsOf :: "string list \<Rightarrow> string list" where
  "usedTermsOf cur = snd (outerLoop cur ([], []))"

definition varValue :: "nat \<Rightarrow> nat \<Rightarrow> nat \<Rightarrow> bool" where
  "varValue numVars a i = odd (a div 2 ^ (numVars - 1 - i))"

definition evalTerm :: "nat \<Rightarrow> string \<Rightarrow> nat \<Rightarrow> bool" where
  "evalTerm numVars t a =
     (\<forall>i < length t. (t ! i = CHR ''1'' \<longrightarrow> varValue numVars a i) \<and>
                     (t ! i = CHR ''0'' \<longrightarrow> \<not> varValue numVars a i))"

definition evalTerms :: "nat \<Rightarrow> string list \<Rightarrow> nat \<Rightarrow> bool" where
  "evalTerms numVars ts a = (\<exists>t \<in> set ts. evalTerm numVars t a)"

definition digit :: "nat \<Rightarrow> char" where
  "digit d = (if d = 0 then CHR ''0'' else CHR ''1'')"

fun binStr :: "nat \<Rightarrow> nat \<Rightarrow> string" where
  "binStr 0 m = []"
| "binStr (Suc n) m = binStr n (m div 2) @ [digit (m mod 2)]"

definition initGroups :: "nat \<Rightarrow> nat list \<Rightarrow> string list" where
  "initGroups numVars minterms =
     fold (\<lambda>m groups. setAdd groups (padStart (toBinary m) numVars CHR ''0'')) minterms []"

section \<open>Synthesizer (services/quineMcCluskey.ts, generateCircuitFromTerms)\<close>




















section \<open>Loading a project (App, handleLoadProject)\<close>

text \<open>
  \<^verbatim>\<open>JSON.parse\<close> is a parameter: it returns the parsed value, or \<open>None\<close> when it throws.
  A property read on \<^verbatim>\<open>null\<close> throws, on an object it yields the value of the key (the
  last one of duplicates) or \<^verbatim>\<open>undefined\<close>, on any other value \<^verbatim>\<open>undefined\<close>. The
  component state holds whatever arrays the document has, so nodes and wires are lists of
  JSON values here. Alerts and console messages are collected in the state.
  \<open>validDocument\<close> is the condition of the specification: the fields \<open>nodes\<close> and
  \<open>wires\<close> are both present as sequences.
\<close>

datatype json =
  JNull | JBool bool | JNumber real | JString string | JArray "json list"
  | JObject "(string \<times> json) list"

datatype property = Undefined | Value json | Throws

definition getProperty :: "json \<Rightarrow> string \<Rightarrow> property" where
  "getProperty v k =
     (case v of
        JNull \<Rightarrow> Throws
      | JObject kvs \<Rightarrow> (case map_of (rev kvs) k of None \<Rightarrow> Undefined | Some x \<Rightarrow> Value x)
      | _ \<Rightarrow> Undefined)"

definition isArray :: "property \<Rightarrow> bool" where
  "isArray p = (case p of Value (JArray xs) \<Rightarrow> True | _ \<Rightarrow> False)"

definition arrayItems :: "property \<Rightarrow> json list" where
  "arrayItems p = (case p of Value (JArray xs) \<Rightarrow> xs | _ \<Rightarrow> [])"

definition jsTruthy :: "property \<Rightarrow> bool" where
  "jsTruthy p =
     (case p of
        Value JNull \<Rightarrow> False
      | Value (JBool b) \<Rightarrow> b
      | Value (JNumber x) \<Rightarrow> x \<noteq> 0
      | Value (JString s) \<Rightarrow> s \<noteq> []
      | Value _ \<Rightarrow> True
      | _ \<Rightarrow> False)"

record AppState =
  appNodes :: "json list"
  appWires :: "json list"
  appCamera :: json
  appSelectedNodeIds :: "string list"
  appSelectedWireIds :: "string list"
  appAlerts :: "string list"
  appConsoleErrors :: "string list"

definition loadFailed :: "AppState \<Rightarrow> AppState" where
  "loadFailed st =
     st\<lparr>appConsoleErrors := appConsoleErrors st @ [''Failed to parse project file''],
        appAlerts := appAlerts st @ [''Failed to load project file.'']\<rparr>"

definition handleLoadProject :: "(string \<Rightarrow> json option) \<Rightarrow> string \<Rightarrow> AppState \<Rightarrow> AppState" where
  "handleLoadProject jsonParse content st =
     (case jsonParse content of
        None \<Rightarrow> loadFailed st
      | Some projectData \<Rightarrow>
          if getProperty projectData ''nodes'' = Throws then loadFailed st
          else if isArray (getProperty projectData ''nodes'') \<and>
                  isArray (getProperty projectData ''wires'')
          then (let st1 = st\<lparr>appNodes := arrayItems (getProperty projectData ''nodes'')\<rparr>;
                    st2 = st1\<lparr>appWires := arrayItems (getProperty projectData ''wires'')\<rparr>;
                    st3 = (if jsTruthy (getProperty projectData ''camera'')
                           then (case getProperty projectData ''camera'' of
                                   Value c \<Rightarrow> st2\<lparr>appCamera := c\<rparr> | _ \<Rightarrow> st2)
                           else st2)
                in st3\<lparr>appSelectedNodeIds := [], appSelectedWireIds := []\<rparr>)
          else st\<lparr>appAlerts := appAlerts st @ [''Invalid project file format.'']\<rparr>)"

definition initialAppState :: AppState where
  "initialAppState =
     \<lparr>appNodes = [], appWires = [],
      appCamera = JObject [(''x'', JNumber 0), (''y'', JNumber 0), (''zoom'', JNumber 1)],
      appSelectedNodeIds = [], appSelectedWireIds = [], appAlerts = [], appConsoleErrors = []\<rparr>"

definition validDocument :: "json option \<Rightarrow> bool" where
  "validDocument parsed =
     (case parsed of
        Some (JObject kvs) \<Rightarrow>
          (case (map_of (rev kvs) ''nodes'', map_of (rev kvs) ''wires'') of
             (Some (JArray ns), Some (JArray ws)) \<Rightarrow> True
           | _ \<Rightarrow> False)
      | _ \<Rightarrow> False)"

section \<open>Properties of a propagation round\<close>

lemma computeNodeLogic_cong:
  "nodeType a = nodeType b \<Longrightarrow> nodeState a = nodeState b \<Longrightarrow>
   computeNodeLogic a v = computeNodeLogic b v"
  by (simp add: computeNodeLogic_def split: GateType.splits)

lemma wireStep_None: "nodeMapGet nodes (sourceNodeId w) = None \<Longrightarrow> wireStep nodes w = w"
  by (simp add: wireStep_def)

lemma wireStep_Some:
  "nodeMapGet nodes (sourceNodeId w) = Some src \<Longrightarrow>
   wireStep nodes w = w\<lparr>wireState := nodeState src\<rparr>"
  by (simp add: wireStep_def)

lemma wireStep_fixed:
  "nodeMapGet nodes (sourceNodeId w) = Some src \<Longrightarrow>
   (wireStep nodes w = w) = (wireState w = nodeState src)"
proof -
  assume g: "nodeMapGet nodes (sourceNodeId w) = Some src"
  have "wireState (wireStep nodes w) = nodeState src"
    using g by (simp add: wireStep_Some)
  moreover have "wireState w = nodeState src \<Longrightarrow> wireStep nodes w = w"
    using g by (simp add: wireStep_Some)
  ultimately show ?thesis by metis
qed

lemma updateWires_eq:
  "updateWires nodes s ws = (s \<and> (\<forall>w \<in> set ws. wireStep nodes w = w), map (wireStep nodes) ws)"
proof (induction ws arbitrary: s)
  case Nil
  show ?case by simp
next
  case (Cons w ws)
  show ?case
  proof (cases "nodeMapGet nodes (sourceNodeId w)")
    case None
    then show ?thesis by (simp add: Cons.IH wireStep_None)
  next
    case (Some src)
    show ?thesis
    proof (cases "wireState w = nodeState src")
      case True
      then have "wireStep nodes w = w" using Some by (simp add: wireStep_fixed)
      with Some True show ?thesis by (simp add: Cons.IH)
    next
      case False
      then have "wireStep nodes w \<noteq> w" using Some by (simp add: wireStep_fixed)
      with Some False show ?thesis by (simp add: Cons.IH wireStep_Some)
    qed
  qed
qed

lemma gatherInputs_fold:
  "k \<le> length ins \<Longrightarrow>
   fold (\<lambda>i (currentInputs, inputsChanged).
             if currentInputs ! i \<noteq> f i
             then (currentInputs[i := f i], True)
             else (currentInputs, inputsChanged))
        [0..<k] (ins, False)
   = (map f [0..<k] @ drop k ins, map f [0..<k] \<noteq> take k ins)"
proof (induction k)
  case 0
  show ?case by simp
next
  case (Suc k)
  then have k: "k < length ins" by simp
  have upd: "(map f [0..<k] @ drop k ins)[k := f k] = map f [0..<k] @ f k # drop (Suc k) ins"
    using k by (simp add: list_update_append Cons_nth_drop_Suc [symmetric])
  have nth: "(map f [0..<k] @ drop k ins) ! k = ins ! k"
    using k by (simp add: nth_append)
  have tk: "take (Suc k) ins = take k ins @ [ins ! k]"
    using k by (simp add: take_Suc_conv_app_nth)
  have same: "ins ! k = f k \<Longrightarrow> map f [0..<k] @ drop k ins = map f [0..<k] @ f k # drop (Suc k) ins"
    using k by (simp add: Cons_nth_drop_Suc [symmetric])
  show ?case
    using Suc.IH k upd nth tk same by (auto)
qed

lemma gatherInputs_eq:
  "gatherInputs inc ins = (map (pinSignal inc) [0..<length ins], map (pinSignal inc) [0..<length ins] \<noteq> ins)"
  unfolding gatherInputs_def using gatherInputs_fold [of "length ins" ins "pinSignal inc"] by simp

lemma computeNodeLogic_inputs [simp]:
  "computeNodeLogic (node\<lparr>nodeInputs := v\<rparr>) w = computeNodeLogic node w"
  by (simp add: computeNodeLogic_def split: GateType.splits)

lemma updateNode_eq:
  "updateNode wires s node =
     (s \<and> nodeState (nodeStep wires node) = nodeState node, nodeStep wires node)"
proof (cases "nodeType node = INPUT_SWITCH \<or> nodeType node = CLOCK")
  case True
  then show ?thesis by (auto simp: updateNode_def nodeStep_def)
next
  case False
  show ?thesis
  proof (cases "signals wires node = nodeInputs node")
    case True
    with False show ?thesis
      by (simp add: updateNode_def nodeStep_def gatherInputs_eq signals_def incoming_def)
  next
    case ne: False
    show ?thesis
    proof (cases "nodeState node = computeNodeLogic node (signals wires node)")
      case True
      then have "node\<lparr>nodeInputs := signals wires node\<rparr> =
                 node\<lparr>nodeInputs := signals wires node,
                      nodeState := computeNodeLogic node (signals wires node)\<rparr>"
        by (intro CircuitNode.equality) simp_all
      with False ne True show ?thesis
        by (simp add: updateNode_def nodeStep_def gatherInputs_eq signals_def incoming_def Let_def)
    next
      case st: False
      with False ne show ?thesis
        by (auto simp add: updateNode_def nodeStep_def gatherInputs_eq signals_def incoming_def Let_def)
    qed
  qed
qed

lemma updateNodes_eq:
  "updateNodes wires s ns =
     (s \<and> (\<forall>n \<in> set ns. nodeState (nodeStep wires n) = nodeState n), map (nodeStep wires) ns)"
  by (induction ns arbitrary: s) (auto simp: updateNode_eq)


lemma propagateLoop_unfold:
  "propagateLoop s it ns ws =
     (if \<not> s \<and> it < MAX_ITERATIONS
      then propagateLoop (roundStable ns ws) (Suc it) (roundNodes ns ws) (roundWires ns ws)
      else (s, ns, ws))"
  by (subst propagateLoop.simps)
     (simp add: updateWires_eq updateNodes_eq roundStable_def roundNodes_def roundWires_def)

lemma sameNode_refl: "sameNode n n"
  by (simp add: sameNode_def)

lemma sameNode_trans: "sameNode a b \<Longrightarrow> sameNode b c \<Longrightarrow> sameNode a c"
  unfolding sameNode_def
  by (metis (no_types, lifting) CircuitNode.update_convs(4,5) CircuitNode.surjective)

lemma sameWire_refl: "sameWire w w"
  by (simp add: sameWire_def)

lemma sameWire_trans: "sameWire a b \<Longrightarrow> sameWire b c \<Longrightarrow> sameWire a c"
  unfolding sameWire_def by (metis Wire.update_convs(6) Wire.surjective)

lemma sameNode_nodeStep: "sameNode n (nodeStep ws n)"
  by (simp add: sameNode_def nodeStep_def signals_def)

lemma sameWire_wireStep: "sameWire w (wireStep ns w)"
  by (simp add: sameWire_def wireStep_def split: option.splits)


lemma list_all2_chain:
  assumes "\<And>a b c. R a b \<Longrightarrow> R b c \<Longrightarrow> R a c"
    and "list_all2 R xs ys" and "list_all2 R ys zs"
  shows "list_all2 R xs zs"
  using assms(2,3) assms(1) by (rule list_all2_trans [rotated]) 

lemma propagateLoop_rel:
  assumes rn: "\<And>n. RN n n" and tn: "\<And>a b c. RN a b \<Longrightarrow> RN b c \<Longrightarrow> RN a c"
    and sn: "\<And>ws n. RN n (nodeStep ws n)"
    and rw: "\<And>w. RW w w" and tw: "\<And>a b c. RW a b \<Longrightarrow> RW b c \<Longrightarrow> RW a c"
    and sw: "\<And>ns w. RW w (wireStep ns w)"
  shows "list_all2 RN ns (fst (snd (propagateLoop s it ns ws))) \<and>
         list_all2 RW ws (snd (snd (propagateLoop s it ns ws)))"
proof (induction "MAX_ITERATIONS - it" arbitrary: s it ns ws)
  case 0
  then have "\<not> it < MAX_ITERATIONS" by simp
  then show ?case
    by (subst (1 2) propagateLoop_unfold) (simp add: list_all2_refl rn rw)
next
  case (Suc k)
  show ?case
  proof (cases "\<not> s \<and> it < MAX_ITERATIONS")
    case False
    then show ?thesis
      by (subst (1 2) propagateLoop_unfold) (auto simp add: list_all2_refl rn rw)
  next
    case True
    let ?r = "propagateLoop (roundStable ns ws) (Suc it) (roundNodes ns ws) (roundWires ns ws)"
    have k: "k = MAX_ITERATIONS - Suc it" using Suc.hyps(2) by simp
    have ih: "list_all2 RN (roundNodes ns ws) (fst (snd ?r)) \<and>
              list_all2 RW (roundWires ns ws) (snd (snd ?r))"
      using Suc.hyps(1) [OF k] .
    have n1: "list_all2 RN ns (roundNodes ns ws)"
      by (simp add: roundNodes_def list_all2_map2 list_all2_refl sn)
    have w1: "list_all2 RW ws (roundWires ns ws)"
      by (simp add: roundWires_def list_all2_map2 list_all2_refl sw)
    have eq: "propagateLoop s it ns ws = ?r"
      using True by (subst propagateLoop_unfold) simp
    have "list_all2 RN ns (fst (snd ?r))"
      by (rule list_all2_chain [where R = RN and ys = "roundNodes ns ws"])
         (use tn n1 ih in blast)+
    moreover have "list_all2 RW ws (snd (snd ?r))"
      by (rule list_all2_chain [where R = RW and ys = "roundWires ns ws"])
         (use tw w1 ih in blast)+
    ultimately show ?thesis
      unfolding eq by simp
  qed
qed

lemma propagateCircuit_frame_rel:
  "list_all2 sameNode ns (fst (propagateCircuit ns ws)) \<and>
   list_all2 sameWire ws (snd (propagateCircuit ns ws))"
proof -
  have "list_all2 sameNode ns (fst (snd (propagateLoop False 0 ns ws))) \<and>
        list_all2 sameWire ws (snd (snd (propagateLoop False 0 ns ws)))"
  proof (rule propagateLoop_rel)
    show "\<And>a b c. sameNode a b \<Longrightarrow> sameNode b c \<Longrightarrow> sameNode a c"
      by (rule sameNode_trans)
    show "\<And>a b c. sameWire a b \<Longrightarrow> sameWire b c \<Longrightarrow> sameWire a c"
      by (rule sameWire_trans)
  qed (simp_all add: sameNode_refl sameNode_nodeStep sameWire_refl sameWire_wireStep)
  then show ?thesis by (simp add: propagateCircuit_def)
qed


lemma sameNode_type: "sameNode n n' \<Longrightarrow> nodeType n' = nodeType n"
  unfolding sameNode_def by (metis CircuitNode.select_convs(2) CircuitNode.surjective CircuitNode.update_convs(4,5))

lemma sameNode_id: "sameNode n n' \<Longrightarrow> nodeId n' = nodeId n"
  unfolding sameNode_def by (metis CircuitNode.select_convs(1) CircuitNode.surjective CircuitNode.update_convs(4,5))

lemma keepsLogic_refl: "keepsLogic n n"
  by (simp add: keepsLogic_def sameNode_refl)

lemma keepsLogic_trans: "keepsLogic a b \<Longrightarrow> keepsLogic b c \<Longrightarrow> keepsLogic a c"
  unfolding keepsLogic_def using sameNode_trans by metis

lemma computeNodeLogic_state:
  "nodeType n \<noteq> INPUT_SWITCH \<Longrightarrow> nodeType n \<noteq> CLOCK \<Longrightarrow>
   computeNodeLogic (n\<lparr>nodeState := b\<rparr>) v = computeNodeLogic n v"
  by (simp add: computeNodeLogic_def split: GateType.splits)

lemma logicOk_nodeStep_changed:
  "nodeStep ws n \<noteq> n \<Longrightarrow> logicOk (nodeStep ws n)"
  by (auto simp: nodeStep_def logicOk_def computeNodeLogic_state split: if_splits)

lemma keepsLogic_nodeStep: "keepsLogic n (nodeStep ws n)"
proof (cases "nodeStep ws n = n")
  case True
  then show ?thesis by (simp add: keepsLogic_refl)
next
  case False
  then show ?thesis
    by (simp add: keepsLogic_def sameNode_nodeStep logicOk_nodeStep_changed)
qed

lemma propagateCircuit_keepsLogic:
  "list_all2 keepsLogic ns (fst (propagateCircuit ns ws))"
proof -
  have "list_all2 keepsLogic ns (fst (snd (propagateLoop False 0 ns ws))) \<and>
        list_all2 sameWire ws (snd (snd (propagateLoop False 0 ns ws)))"
  proof (rule propagateLoop_rel)
    show "\<And>a b c. keepsLogic a b \<Longrightarrow> keepsLogic b c \<Longrightarrow> keepsLogic a c"
      by (rule keepsLogic_trans)
    show "\<And>a b c. sameWire a b \<Longrightarrow> sameWire b c \<Longrightarrow> sameWire a c"
      by (rule sameWire_trans)
  qed (simp_all add: keepsLogic_refl keepsLogic_nodeStep sameWire_refl sameWire_wireStep)
  then show ?thesis by (simp add: propagateCircuit_def)
qed

lemma signals_cong:
  "nodeId a = nodeId b \<Longrightarrow> length (nodeInputs a) = length (nodeInputs b) \<Longrightarrow>
   signals ws a = signals ws b"
  by (simp add: signals_def incoming_def)

lemma length_signals [simp]: "length (signals ws n) = length (nodeInputs n)"
  by (simp add: signals_def)

lemma nodeStep_inputs: "nonSource n \<Longrightarrow> nodeInputs (nodeStep ws n) = signals ws n"
  by (simp add: nodeStep_def nonSource_def)

lemma signals_nodeStep: "signals ws (nodeStep ws' n) = signals ws n"
  by (rule signals_cong) (simp_all add: nodeStep_def)

lemma nonSource_nodeStep [simp]: "nonSource (nodeStep ws n) = nonSource n"
  by (simp add: nodeStep_def nonSource_def)

lemma inputsFromWires_round: "inputsFromWires (roundNodes ns ws) (roundWires ns ws)"
  by (simp add: inputsFromWires_def roundNodes_def nodeStep_inputs signals_nodeStep)

lemma propagateLoop_inputsFromWires:
  "inputsFromWires ns ws \<or> (\<not> s \<and> it < MAX_ITERATIONS) \<Longrightarrow>
   inputsFromWires (fst (snd (propagateLoop s it ns ws))) (snd (snd (propagateLoop s it ns ws)))"
proof (induction "MAX_ITERATIONS - it" arbitrary: s it ns ws)
  case 0
  then show ?case by (subst (1 2) propagateLoop_unfold) simp
next
  case (Suc k)
  show ?case
  proof (cases "\<not> s \<and> it < MAX_ITERATIONS")
    case False
    with Suc.prems show ?thesis by (subst (1 2) propagateLoop_unfold) auto
  next
    case True
    have k: "k = MAX_ITERATIONS - Suc it" using Suc.hyps(2) by simp
    have eq: "propagateLoop s it ns ws =
              propagateLoop (roundStable ns ws) (Suc it) (roundNodes ns ws) (roundWires ns ws)"
      using True by (subst propagateLoop_unfold) simp
    show ?thesis
      unfolding eq by (rule Suc.hyps(1) [OF k]) (simp add: inputsFromWires_round)
  qed
qed

lemma propagateCircuit_inputsFromWires:
  "inputsFromWires (fst (propagateCircuit ns ws)) (snd (propagateCircuit ns ws))"
  unfolding propagateCircuit_def
  using propagateLoop_inputsFromWires [of ns ws False 0] by (simp add: MAX_ITERATIONS_def)

lemma pinSignal_floating:
  "\<not> (\<exists>w \<in> set inc. targetPinIndex w = i) \<Longrightarrow> pinSignal inc i = False"
  by (auto simp: pinSignal_def find_Some_iff split: option.splits)

lemma signals_floating:
  "i < length (nodeInputs n) \<Longrightarrow>
   \<not> (\<exists>w \<in> set ws. targetNodeId w = nodeId n \<and> targetPinIndex w = i) \<Longrightarrow>
   signals ws n ! i = False"
  by (simp add: signals_def incoming_def pinSignal_floating)


lemma find_sameOutput:
  "list_all2 sameOutput xs ys \<Longrightarrow>
   map_option nodeState (find (\<lambda>n. nodeId n = k) xs) =
   map_option nodeState (find (\<lambda>n. nodeId n = k) ys)"
  by (induction rule: list_all2_induct) (auto simp: sameOutput_def)

lemma wireStep_eq_state:
  "wireStep ns w =
     (case map_option nodeState (nodeMapGet ns (sourceNodeId w)) of
        None \<Rightarrow> w | Some b \<Rightarrow> w\<lparr>wireState := b\<rparr>)"
  by (simp add: wireStep_def split: option.splits)

lemma wireStep_sameOutput:
  assumes "list_all2 sameOutput ns ns'"
  shows "wireStep ns w = wireStep ns' w"
proof -
  have "list_all2 sameOutput (rev ns) (rev ns')"
    using assms by (simp add: list_all2_rev)
  then have "map_option nodeState (nodeMapGet ns (sourceNodeId w)) =
             map_option nodeState (nodeMapGet ns' (sourceNodeId w))"
    unfolding nodeMapGet_def by (rule find_sameOutput)
  then show ?thesis by (simp only: wireStep_eq_state)
qed

lemma nodeStep_id [simp]: "nodeId (nodeStep ws n) = nodeId n"
  by (simp add: nodeStep_def)

lemma nodeStep_idem: "nodeStep ws (nodeStep ws n) = nodeStep ws n"
proof (cases "nonSource n")
  case False
  then show ?thesis by (simp add: nodeStep_def nonSource_def)
next
  case True
  then have "nodeInputs (nodeStep ws n) = signals ws (nodeStep ws n)"
    by (simp add: nodeStep_inputs signals_nodeStep)
  then show ?thesis
    by (subst nodeStep_def) simp
qed

lemma stable_round_fixpoint:
  assumes "roundStable ns ws"
  shows "fixpoint (roundNodes ns ws) (roundWires ns ws)"
proof -
  have ws: "roundWires ns ws = ws"
    using assms by (simp add: roundStable_def roundWires_def map_idI)
  have st: "\<forall>n \<in> set ns. nodeState (nodeStep ws n) = nodeState n"
    using assms ws by (simp add: roundStable_def)
  have "list_all2 sameOutput (roundNodes ns ws) ns"
    using st by (simp add: roundNodes_def ws list_all2_map1 sameOutput_def list_all2_same)
  then have w2: "roundWires (roundNodes ns ws) ws = roundWires ns ws"
    unfolding roundWires_def by (intro map_cong refl wireStep_sameOutput)
  have n2: "roundNodes (roundNodes ns ws) ws = roundNodes ns ws"
    unfolding roundNodes_def [of "roundNodes ns ws"] w2 ws
    by (simp add: roundNodes_def ws nodeStep_idem)
  show ?thesis
    unfolding fixpoint_def using w2 n2 ws by simp
qed

lemma fixpoint_stable: "fixpoint ns ws \<Longrightarrow> roundStable ns ws"
  unfolding fixpoint_def roundStable_def roundWires_def roundNodes_def
  by (metis map_eq_conv list.map_id0 id_apply list.map_ident)

lemma propagateLoop_fixpoint:
  "fixpoint ns ws \<Longrightarrow> snd (propagateLoop s it ns ws) = (ns, ws)"
proof (induction "MAX_ITERATIONS - it" arbitrary: s it)
  case 0
  then show ?case by (subst propagateLoop_unfold) simp
next
  case (Suc k)
  have k: "k = MAX_ITERATIONS - Suc it" using Suc.hyps(2) by simp
  show ?case
    using Suc.hyps(1) [OF k Suc.prems] Suc.prems
    by (subst propagateLoop_unfold) (simp add: fixpoint_def)
qed

lemma propagateLoop_flag:
  "fst (propagateLoop s it ns ws) \<Longrightarrow>
   s \<and> snd (propagateLoop s it ns ws) = (ns, ws) \<or>
   fixpoint (fst (snd (propagateLoop s it ns ws))) (snd (snd (propagateLoop s it ns ws)))"
proof (induction "MAX_ITERATIONS - it" arbitrary: s it ns ws)
  case 0
  then have "\<not> it < MAX_ITERATIONS" by simp
  then have eq: "propagateLoop s it ns ws = (s, ns, ws)"
    by (subst propagateLoop_unfold) simp
  show ?case using "0.prems" unfolding eq by simp
next
  case (Suc k)
  show ?case
  proof (cases "\<not> s \<and> it < MAX_ITERATIONS")
    case False
    then have eq: "propagateLoop s it ns ws = (s, ns, ws)"
      by (subst propagateLoop_unfold) auto
    show ?thesis using Suc.prems unfolding eq by simp
  next
    case True
    have k: "k = MAX_ITERATIONS - Suc it" using Suc.hyps(2) by simp
    have eq: "propagateLoop s it ns ws =
              propagateLoop (roundStable ns ws) (Suc it) (roundNodes ns ws) (roundWires ns ws)"
      using True by (subst propagateLoop_unfold) simp
    have "roundStable ns ws \<and>
            snd (propagateLoop (roundStable ns ws) (Suc it) (roundNodes ns ws) (roundWires ns ws))
              = (roundNodes ns ws, roundWires ns ws) \<or>
          fixpoint (fst (snd (propagateLoop s it ns ws))) (snd (snd (propagateLoop s it ns ws)))"
      using Suc.hyps(1) [OF k, of "roundStable ns ws" "roundNodes ns ws" "roundWires ns ws"]
        Suc.prems unfolding eq by blast
    then show ?thesis
      unfolding eq using stable_round_fixpoint [of ns ws] by auto
  qed
qed

lemma propagateCircuit_fixpoint:
  "fixpoint ns ws \<Longrightarrow> propagateCircuit ns ws = (ns, ws)"
  by (simp add: propagateCircuit_def propagateLoop_fixpoint)

lemma propagateCircuit_converged:
  assumes "fst (propagateLoop False 0 ns ws)"
  shows "fixpoint (fst (propagateCircuit ns ws)) (snd (propagateCircuit ns ws))"
  using propagateLoop_flag [OF assms] by (simp add: propagateCircuit_def)


lemma Ns_0 [simp]: "Ns ns ws 0 = ns" and Ws_0 [simp]: "Ws ns ws 0 = ws"
  by (simp_all add: Ns_def Ws_def)

lemma Ws_Suc: "Ws ns ws (Suc j) = map (wireStep (Ns ns ws j)) (Ws ns ws j)"
  by (simp add: Ns_def Ws_def roundWires_def split: prod.splits)

lemma Ns_Suc: "Ns ns ws (Suc j) = map (nodeStep (Ws ns ws (Suc j))) (Ns ns ws j)"
  by (simp add: Ns_def Ws_def roundNodes_def roundWires_def split: prod.splits)

lemma rounds_shift: "rounds (Suc j) ns ws = rounds j (roundNodes ns ws) (roundWires ns ws)"
  by (induction j) (simp_all split: prod.splits)

lemma length_Ns [simp]: "length (Ns ns ws j) = length ns"
  by (induction j) (simp_all add: Ns_Suc)

lemma length_Ws [simp]: "length (Ws ns ws j) = length ws"
  by (induction j) (simp_all add: Ws_Suc)

lemma Ns_id: "i < length ns \<Longrightarrow> nodeId (Ns ns ws j ! i) = nodeId (ns ! i)"
  by (induction j) (simp_all add: Ns_Suc)

lemma wireStep_source [simp]: "sourceNodeId (wireStep ns w) = sourceNodeId w"
  by (simp add: wireStep_def split: option.splits)

lemma wireStep_target [simp]: "targetNodeId (wireStep ns w) = targetNodeId w"
  by (simp add: wireStep_def split: option.splits)

lemma Ws_source: "m < length ws \<Longrightarrow> sourceNodeId (Ws ns ws j ! m) = sourceNodeId (ws ! m)"
  by (induction j) (simp_all add: Ws_Suc)

lemma Ws_target: "m < length ws \<Longrightarrow> targetNodeId (Ws ns ws j ! m) = targetNodeId (ws ! m)"
  by (induction j) (simp_all add: Ws_Suc)

lemma wireStep_idem: "wireStep ns (wireStep ns w) = wireStep ns w"
  by (simp add: wireStep_def split: option.splits)

lemma wireStep_cong_get:
  "nodeMapGet ns (sourceNodeId w) = nodeMapGet ns' (sourceNodeId w) \<Longrightarrow>
   wireStep ns w = wireStep ns' w"
  by (simp add: wireStep_def)

lemma nodeStep_cong_incoming:
  assumes "incoming ws n = incoming ws' n"
  shows "nodeStep ws n = nodeStep ws' n"
proof -
  have "signals ws n = signals ws' n"
    unfolding signals_def assms ..
  then show ?thesis
    unfolding nodeStep_def by (simp only:)
qed

lemma find_agree:
  "list_all2 (\<lambda>x y. nodeId x = nodeId y \<and> (nodeId x = a \<longrightarrow> x = y)) xs ys \<Longrightarrow>
   find (\<lambda>n. nodeId n = a) xs = find (\<lambda>n. nodeId n = a) ys"
proof (induction rule: list_all2_induct)
  case Nil
  show ?case by simp
next
  case (Cons x xs y ys)
  show ?case
  proof (cases "nodeId x = a")
    case True
    with Cons.hyps(1) have "x = y" and "nodeId y = a" by simp_all
    then show ?thesis by simp
  next
    case False
    with Cons.hyps(1) have "nodeId y \<noteq> a" by simp
    with False Cons.IH show ?thesis by simp
  qed
qed

lemma filter_agree:
  "list_all2 (\<lambda>x y. targetNodeId x = targetNodeId y \<and> (targetNodeId x = a \<longrightarrow> x = y)) xs ys \<Longrightarrow>
   filter (\<lambda>w. targetNodeId w = a) xs = filter (\<lambda>w. targetNodeId w = a) ys"
proof (induction rule: list_all2_induct)
  case Nil
  show ?case by simp
next
  case (Cons x xs y ys)
  show ?case
  proof (cases "targetNodeId x = a")
    case True
    with Cons.hyps(1) have "x = y" and "targetNodeId y = a" by simp_all
    with Cons.IH show ?thesis by simp
  next
    case False
    with Cons.hyps(1) have "targetNodeId y \<noteq> a" by simp
    with False Cons.IH show ?thesis by simp
  qed
qed

lemma nodesFinal_get:
  assumes "nodesFinal rank ns ws k" and "rank a < k"
  shows "nodeMapGet (Ns ns ws (k + d)) a = nodeMapGet (Ns ns ws k) a"
proof -
  have "list_all2 (\<lambda>x y. nodeId x = nodeId y \<and> (nodeId x = a \<longrightarrow> x = y))
          (Ns ns ws (k + d)) (Ns ns ws k)"
    using assms by (auto simp: list_all2_conv_all_nth Ns_id nodesFinal_def)
  then have "list_all2 (\<lambda>x y. nodeId x = nodeId y \<and> (nodeId x = a \<longrightarrow> x = y))
          (rev (Ns ns ws (k + d))) (rev (Ns ns ws k))"
    by (simp add: list_all2_rev)
  then show ?thesis
    unfolding nodeMapGet_def by (rule find_agree)
qed

lemma nodesFinal_wiresFinal:
  assumes nf: "nodesFinal rank ns ws k"
  shows "wiresFinal rank ns ws k"
  unfolding wiresFinal_def
proof (intro allI impI)
  fix d m
  assume m: "m < length ws" and r: "rank (sourceNodeId (ws ! m)) < k"
  show "Ws ns ws (Suc k + d) ! m = Ws ns ws (Suc k) ! m"
  proof (induction d)
    case 0
    show ?case by simp
  next
    case (Suc d)
    have src: "sourceNodeId (Ws ns ws (Suc k) ! m) = sourceNodeId (ws ! m)"
      using m by (rule Ws_source)
    have "Ws ns ws (Suc k + Suc d) ! m
            = wireStep (Ns ns ws (Suc k + d)) (Ws ns ws (Suc k + d) ! m)"
      using m by (simp add: Ws_Suc [of ns ws "Suc (k + d)"])
    also have "\<dots> = wireStep (Ns ns ws (k + Suc d)) (Ws ns ws (Suc k) ! m)"
      using Suc.IH by simp
    also have "\<dots> = wireStep (Ns ns ws k) (Ws ns ws (Suc k) ! m)"
      by (rule wireStep_cong_get) (simp only: src nodesFinal_get [OF nf r])
    also have "\<dots> = Ws ns ws (Suc k) ! m"
      using m by (simp add: Ws_Suc [of ns ws k] wireStep_idem)
    finally show ?case .
  qed
qed

lemma wiresFinal_incoming:
  assumes wf: "wiresFinal rank ns ws k"
    and acyc: "\<forall>w \<in> set ws. rank (sourceNodeId w) < rank (targetNodeId w)"
    and a: "rank a < Suc k"
  shows "filter (\<lambda>w. targetNodeId w = a) (Ws ns ws (Suc k + d)) =
         filter (\<lambda>w. targetNodeId w = a) (Ws ns ws (Suc k))"
proof (rule filter_agree)
  show "list_all2 (\<lambda>x y. targetNodeId x = targetNodeId y \<and> (targetNodeId x = a \<longrightarrow> x = y))
          (Ws ns ws (Suc k + d)) (Ws ns ws (Suc k))"
    unfolding list_all2_conv_all_nth
  proof (intro conjI allI impI)
    show "length (Ws ns ws (Suc k + d)) = length (Ws ns ws (Suc k))" by simp
  next
    fix m assume "m < length (Ws ns ws (Suc k + d))"
    then have m: "m < length ws" by simp
    show "targetNodeId (Ws ns ws (Suc k + d) ! m) = targetNodeId (Ws ns ws (Suc k) ! m)"
      using m by (simp only: Ws_target)
  next
    fix m assume "m < length (Ws ns ws (Suc k + d))"
      and t: "targetNodeId (Ws ns ws (Suc k + d) ! m) = a"
    then have m: "m < length ws" by simp
    have "targetNodeId (ws ! m) = a" using t m by (simp only: Ws_target)
    moreover have "rank (sourceNodeId (ws ! m)) < rank (targetNodeId (ws ! m))"
      using acyc m by simp
    ultimately have "rank (sourceNodeId (ws ! m)) < k" using a by simp
    then show "Ws ns ws (Suc k + d) ! m = Ws ns ws (Suc k) ! m"
      using wf m unfolding wiresFinal_def by blast
  qed
qed

lemma wiresFinal_nodesFinal:
  assumes wf: "wiresFinal rank ns ws k"
    and acyc: "\<forall>w \<in> set ws. rank (sourceNodeId w) < rank (targetNodeId w)"
  shows "nodesFinal rank ns ws (Suc k)"
  unfolding nodesFinal_def
proof (intro allI impI)
  fix d i
  assume i: "i < length ns" and r: "rank (nodeId (ns ! i)) < Suc k"
  show "Ns ns ws (Suc k + d) ! i = Ns ns ws (Suc k) ! i"
  proof (induction d)
    case 0
    show ?case by simp
  next
    case (Suc d)
    let ?n = "Ns ns ws (Suc k) ! i"
    have idn: "nodeId ?n = nodeId (ns ! i)" using i by (rule Ns_id)
    have inc: "incoming (Ws ns ws (Suc k + Suc d)) ?n = incoming (Ws ns ws (Suc k)) ?n"
      unfolding incoming_def idn using wiresFinal_incoming [OF wf acyc r] .
    have "Ns ns ws (Suc k + Suc d) ! i
            = nodeStep (Ws ns ws (Suc k + Suc d)) (Ns ns ws (Suc k + d) ! i)"
      using i by (simp add: Ns_Suc [of ns ws "Suc (k + d)"])
    also have "\<dots> = nodeStep (Ws ns ws (Suc k + Suc d)) ?n"
      using Suc.IH by simp
    also have "\<dots> = nodeStep (Ws ns ws (Suc k)) ?n"
      using inc by (rule nodeStep_cong_incoming)
    also have "\<dots> = ?n"
      using i by (simp add: Ns_Suc [of ns ws k] nodeStep_idem)
    finally show ?case .
  qed
qed

lemma ranked_final:
  assumes acyc: "\<forall>w \<in> set ws. rank (sourceNodeId w) < rank (targetNodeId w)"
  shows "nodesFinal rank ns ws k \<and> wiresFinal rank ns ws k"
proof (induction k)
  case 0
  have "nodesFinal rank ns ws 0" by (simp add: nodesFinal_def)
  then show ?case by (simp add: nodesFinal_wiresFinal)
next
  case (Suc k)
  then have "nodesFinal rank ns ws (Suc k)"
    using wiresFinal_nodesFinal [OF _ acyc] by blast
  then show ?case by (simp add: nodesFinal_wiresFinal)
qed

lemma ranked_fixpoint:
  assumes acyc: "\<forall>w \<in> set ws. rank (sourceNodeId w) < rank (targetNodeId w)"
    and wb: "\<forall>w \<in> set ws. rank (targetNodeId w) \<le> D"
    and nb: "\<forall>n \<in> set ns. rank (nodeId n) \<le> D"
  shows "fixpoint (Ns ns ws (Suc D)) (Ws ns ws (Suc D))"
proof -
  have nf: "nodesFinal rank ns ws (Suc D)" and wf: "wiresFinal rank ns ws D"
    using ranked_final [OF acyc] by blast+
  have n: "Ns ns ws (Suc D + 1) = Ns ns ws (Suc D)"
  proof (rule nth_equalityI)
    fix i assume "i < length (Ns ns ws (Suc D + 1))"
    then have i: "i < length ns" by simp
    then have "rank (nodeId (ns ! i)) < Suc D" using nb by (simp add: less_Suc_eq_le)
    then show "Ns ns ws (Suc D + 1) ! i = Ns ns ws (Suc D) ! i"
      using nf i unfolding nodesFinal_def by blast
  qed simp
  have w: "Ws ns ws (Suc D + 1) = Ws ns ws (Suc D)"
  proof (rule nth_equalityI)
    fix m assume "m < length (Ws ns ws (Suc D + 1))"
    then have m: "m < length ws" by simp
    then have "rank (sourceNodeId (ws ! m)) < rank (targetNodeId (ws ! m))"
      and "rank (targetNodeId (ws ! m)) \<le> D"
      using acyc wb by simp_all
    then have "rank (sourceNodeId (ws ! m)) < D" by simp
    then show "Ws ns ws (Suc D + 1) ! m = Ws ns ws (Suc D) ! m"
      using wf m unfolding wiresFinal_def by blast
  qed simp
  have w': "roundWires (Ns ns ws (Suc D)) (Ws ns ws (Suc D)) = Ws ns ws (Suc D + 1)"
    unfolding roundWires_def by (simp add: Ws_Suc [of ns ws "Suc D"])
  have n': "roundNodes (Ns ns ws (Suc D)) (Ws ns ws (Suc D)) = Ns ns ws (Suc D + 1)"
    unfolding roundNodes_def roundWires_def
    by (simp add: Ns_Suc [of ns ws "Suc D"] Ws_Suc [of ns ws "Suc D"])
  show ?thesis
    unfolding fixpoint_def w' n' using n w by (rule conjI [rotated])
qed


lemma propagateLoop_rounds:
  "it \<le> MAX_ITERATIONS \<Longrightarrow>
   \<exists>r. it + r \<le> MAX_ITERATIONS \<and> snd (propagateLoop s it ns ws) = rounds r ns ws \<and>
       (\<not> fst (propagateLoop s it ns ws) \<longrightarrow> it + r = MAX_ITERATIONS)"
proof (induction "MAX_ITERATIONS - it" arbitrary: s it ns ws)
  case 0
  then have eq: "propagateLoop s it ns ws = (s, ns, ws)"
    by (subst propagateLoop_unfold) simp
  show ?case unfolding eq using "0.hyps" "0.prems" by (intro exI [of _ 0]) simp
next
  case (Suc k)
  show ?case
  proof (cases "\<not> s \<and> it < MAX_ITERATIONS")
    case False
    then have eq: "propagateLoop s it ns ws = (s, ns, ws)"
      by (subst propagateLoop_unfold) auto
    show ?thesis unfolding eq using False Suc.prems by (intro exI [of _ 0]) auto
  next
    case True
    have k: "k = MAX_ITERATIONS - Suc it" using Suc.hyps(2) by simp
    have le: "Suc it \<le> MAX_ITERATIONS" using True by simp
    have eq: "propagateLoop s it ns ws =
              propagateLoop (roundStable ns ws) (Suc it) (roundNodes ns ws) (roundWires ns ws)"
      using True by (subst propagateLoop_unfold) simp
    obtain r where r: "Suc it + r \<le> MAX_ITERATIONS"
      "snd (propagateLoop (roundStable ns ws) (Suc it) (roundNodes ns ws) (roundWires ns ws))
         = rounds r (roundNodes ns ws) (roundWires ns ws)"
      "\<not> fst (propagateLoop (roundStable ns ws) (Suc it) (roundNodes ns ws) (roundWires ns ws))
         \<longrightarrow> Suc it + r = MAX_ITERATIONS"
      using Suc.hyps(1) [OF k le] by blast
    show ?thesis
      unfolding eq using r by (intro exI [of _ "Suc r"]) (simp add: rounds_shift del: rounds.simps)
  qed
qed

lemma propagateCircuit_ranked_fixpoint:
  assumes acyc: "\<forall>w \<in> set ws. rank (sourceNodeId w) < rank (targetNodeId w)"
    and wb: "\<forall>w \<in> set ws. rank (targetNodeId w) < MAX_ITERATIONS"
    and nb: "\<forall>n \<in> set ns. rank (nodeId n) < MAX_ITERATIONS"
  shows "fixpoint (fst (propagateCircuit ns ws)) (snd (propagateCircuit ns ws))"
proof (cases "fst (propagateLoop False 0 ns ws)")
  case True
  then show ?thesis by (rule propagateCircuit_converged)
next
  case False
  obtain r where "snd (propagateLoop False 0 ns ws) = rounds r ns ws" "0 + r = MAX_ITERATIONS"
    using propagateLoop_rounds [of 0 False ns ws] False by auto
  then have res: "propagateCircuit ns ws = rounds (Suc 19) ns ws"
    by (simp add: propagateCircuit_def MAX_ITERATIONS_def)
  have "fixpoint (Ns ns ws (Suc 19)) (Ws ns ws (Suc 19))"
    by (rule ranked_fixpoint [OF acyc]) (use wb nb in \<open>auto simp: MAX_ITERATIONS_def\<close>)
  then show ?thesis
    unfolding res Ns_def Ws_def .
qed

lemma incoming_skip:
  "targetNodeId w \<noteq> nodeId n \<Longrightarrow> incoming (xs @ w # ys) n = incoming (xs @ ys) n"
  by (simp add: incoming_def)

lemma roundWires_split:
  "roundWires ns (xs @ w # ys) = roundWires ns xs @ wireStep ns w # roundWires ns ys"
  and roundWires_append: "roundWires ns (xs @ ys) = roundWires ns xs @ roundWires ns ys"
  by (simp_all add: roundWires_def)

lemma roundNodes_skip:
  assumes "targetNodeId w \<notin> nodeId ` set ns"
  shows "roundNodes ns (xs @ w # ys) = roundNodes ns (xs @ ys)"
proof -
  have "nodeStep (roundWires ns xs @ wireStep ns w # roundWires ns ys) n =
        nodeStep (roundWires ns xs @ roundWires ns ys) n" if "n \<in> set ns" for n
  proof -
    have "targetNodeId (wireStep ns w) \<noteq> nodeId n" using assms that by auto
    then show ?thesis by (intro nodeStep_cong_incoming incoming_skip)
  qed
  then show ?thesis
    by (simp add: roundNodes_def roundWires_def)
qed

lemma roundStable_skip:
  assumes "targetNodeId w \<notin> nodeId ` set ns"
  shows "roundStable ns (xs @ w # ys) = (roundStable ns (xs @ ys) \<and> wireStep ns w = w)"
proof -
  have "\<And>n. n \<in> set ns \<Longrightarrow>
          nodeStep (roundWires ns (xs @ w # ys)) n = nodeStep (roundWires ns (xs @ ys)) n"
    using roundNodes_skip [OF assms, of xs ys] by (simp add: roundNodes_def)
  then show ?thesis
    unfolding roundStable_def by auto
qed

lemma roundNodes_ids [simp]: "nodeId ` set (roundNodes ns ws) = nodeId ` set ns"
  by (simp add: roundNodes_def image_image)

lemma length_roundWires [simp]: "length (roundWires ns ws) = length ws"
  by (simp add: roundWires_def)

lemma propagateLoop_skip_fixpoint:
  assumes "targetNodeId w \<notin> nodeId ` set ns" and "fixpoint ns (xs @ ys)"
  shows "\<exists>w'. sameWire w w' \<and> snd (propagateLoop s it ns (xs @ w # ys)) = (ns, xs @ w' # ys)"
  using assms
proof (induction "MAX_ITERATIONS - it" arbitrary: s it w)
  case 0
  then have eq: "propagateLoop s it ns (xs @ w # ys) = (s, ns, xs @ w # ys)"
    by (subst propagateLoop_unfold) simp
  show ?case unfolding eq by (intro exI [of _ w]) (simp add: sameWire_refl)
next
  case (Suc k)
  show ?case
  proof (cases "\<not> s \<and> it < MAX_ITERATIONS")
    case False
    then have eq: "propagateLoop s it ns (xs @ w # ys) = (s, ns, xs @ w # ys)"
      by (subst propagateLoop_unfold) auto
    show ?thesis unfolding eq by (intro exI [of _ w]) (simp add: sameWire_refl)
  next
    case True
    have k: "k = MAX_ITERATIONS - Suc it" using Suc.hyps(2) by simp
    have fx: "roundWires ns xs = xs" "roundWires ns ys = ys" "roundNodes ns (xs @ ys) = ns"
      using Suc.prems(2) by (simp_all add: fixpoint_def roundWires_append append_eq_append_conv)
    have eq: "propagateLoop s it ns (xs @ w # ys) =
              propagateLoop (roundStable ns (xs @ w # ys)) (Suc it) ns (xs @ wireStep ns w # ys)"
      using True
      by (subst propagateLoop_unfold)
         (simp add: roundNodes_skip [OF Suc.prems(1)] roundWires_split fx)
    have t: "targetNodeId (wireStep ns w) \<notin> nodeId ` set ns"
      using Suc.prems(1) by simp
    obtain w' where "sameWire (wireStep ns w) w'"
      "snd (propagateLoop (roundStable ns (xs @ w # ys)) (Suc it) ns (xs @ wireStep ns w # ys))
         = (ns, xs @ w' # ys)"
      using Suc.hyps(1) [OF k t Suc.prems(2)] by blast
    then show ?thesis
      unfolding eq using sameWire_trans [OF sameWire_wireStep] by blast
  qed
qed

lemma propagateLoop_skip:
  assumes "targetNodeId w \<notin> nodeId ` set ns"
  shows "\<exists>w' xs' ys'. sameWire w w' \<and> length xs' = length xs \<and>
           snd (propagateLoop s it ns (xs @ w # ys)) =
             (fst (snd (propagateLoop s it ns (xs @ ys))), xs' @ w' # ys') \<and>
           snd (snd (propagateLoop s it ns (xs @ ys))) = xs' @ ys'"
  using assms
proof (induction "MAX_ITERATIONS - it" arbitrary: s it ns w xs ys)
  case 0
  then have "\<not> it < MAX_ITERATIONS" by simp
  then have eq: "\<And>v. propagateLoop s it ns v = (s, ns, v)"
    by (subst propagateLoop_unfold) simp
  show ?case unfolding eq
    by (intro exI [of _ w] exI [of _ xs] exI [of _ ys]) (simp add: sameWire_refl)
next
  case (Suc k)
  show ?case
  proof (cases "\<not> s \<and> it < MAX_ITERATIONS")
    case False
    then have eq: "\<And>v. propagateLoop s it ns v = (s, ns, v)"
      by (subst propagateLoop_unfold) auto
    show ?thesis unfolding eq
      by (intro exI [of _ w] exI [of _ xs] exI [of _ ys]) (simp add: sameWire_refl)
  next
    case True
    have k: "k = MAX_ITERATIONS - Suc it" using Suc.hyps(2) by simp
    let ?ns = "roundNodes ns (xs @ ys)" and ?xs = "roundWires ns xs" and ?ys = "roundWires ns ys"
    let ?w = "wireStep ns w"
    have t: "targetNodeId ?w \<notin> nodeId ` set ?ns"
      using Suc.prems by simp
    have eqA: "propagateLoop s it ns (xs @ w # ys) =
               propagateLoop (roundStable ns (xs @ ys) \<and> ?w = w) (Suc it) ?ns (?xs @ ?w # ?ys)"
      using True
      by (subst propagateLoop_unfold)
         (simp add: roundNodes_skip [OF Suc.prems] roundStable_skip [OF Suc.prems] roundWires_split)
    have eqB: "propagateLoop s it ns (xs @ ys) =
               propagateLoop (roundStable ns (xs @ ys)) (Suc it) ?ns (?xs @ ?ys)"
      using True by (subst propagateLoop_unfold) (simp add: roundWires_append)
    show ?thesis
    proof (cases "roundStable ns (xs @ ys) \<and> ?w \<noteq> w")
      case False
      then have fl: "(roundStable ns (xs @ ys) \<and> ?w = w) = roundStable ns (xs @ ys)" by blast
      obtain w' xs' ys' where r: "sameWire ?w w'" "length xs' = length ?xs"
        "snd (propagateLoop (roundStable ns (xs @ ys)) (Suc it) ?ns (?xs @ ?w # ?ys)) =
           (fst (snd (propagateLoop (roundStable ns (xs @ ys)) (Suc it) ?ns (?xs @ ?ys))),
            xs' @ w' # ys')"
        "snd (snd (propagateLoop (roundStable ns (xs @ ys)) (Suc it) ?ns (?xs @ ?ys))) = xs' @ ys'"
        using Suc.hyps(1) [OF k t] by blast
      have "sameWire w w'" using sameWire_trans [OF sameWire_wireStep r(1)] .
      then show ?thesis
        unfolding eqA eqB fl using r(2,3,4) by (intro exI [of _ w'] exI [of _ xs'] exI [of _ ys']) simp
    next
      case True
      then have st: "roundStable ns (xs @ ys)" and ch: "?w \<noteq> w" by simp_all
      have B: "propagateLoop True (Suc it) ?ns (?xs @ ?ys) = (True, ?ns, ?xs @ ?ys)"
        by (subst propagateLoop_unfold) simp
      have fx: "fixpoint ?ns (?xs @ ?ys)"
        using stable_round_fixpoint [OF st] by (simp add: roundWires_append)
      obtain w' where r: "sameWire ?w w'"
        "snd (propagateLoop False (Suc it) ?ns (?xs @ ?w # ?ys)) = (?ns, ?xs @ w' # ?ys)"
        using propagateLoop_skip_fixpoint [OF t fx] by blast
      have "sameWire w w'" using sameWire_trans [OF sameWire_wireStep r(1)] .
      then show ?thesis
        unfolding eqA eqB using st ch r(2) B
        by (intro exI [of _ w'] exI [of _ ?xs] exI [of _ ?ys]) simp
    qed
  qed
qed

lemma nodeMapGet_None: "k \<notin> nodeId ` set ns \<Longrightarrow> nodeMapGet ns k = None"
  by (auto simp: nodeMapGet_def find_None_iff)

lemma propagateLoop_dangling_source:
  assumes "sourceNodeId w \<notin> nodeId ` set ns"
  shows "snd (snd (propagateLoop s it ns (xs @ w # ys))) ! length xs = w"
  using assms
proof (induction "MAX_ITERATIONS - it" arbitrary: s it ns xs ys)
  case 0
  then show ?case by (subst propagateLoop_unfold) simp
next
  case (Suc k)
  have k: "k = MAX_ITERATIONS - Suc it" using Suc.hyps(2) by simp
  have w: "wireStep ns w = w"
    using Suc.prems by (simp add: wireStep_def nodeMapGet_None)
  have s: "sourceNodeId w \<notin> nodeId ` set (roundNodes ns (xs @ w # ys))"
    using Suc.prems by simp
  show ?case
    using Suc.hyps(1) [OF k s, where xs = "roundWires ns xs" and ys = "roundWires ns ys"
        and s = "roundStable ns (xs @ w # ys)"]
    by (subst propagateLoop_unfold) (simp add: roundWires_split w)
qed

lemma sameWire_target:
  "sameWire w w' \<Longrightarrow> targetNodeId w' = targetNodeId w \<and> targetPinIndex w' = targetPinIndex w"
  unfolding sameWire_def
  by (metis Wire.select_convs(4,5) Wire.surjective Wire.update_convs(6))

lemma sameWire_targets:
  "list_all2 sameWire ws ws' \<Longrightarrow>
   (\<exists>w \<in> set ws'. targetNodeId w = a \<and> targetPinIndex w = i) =
   (\<exists>w \<in> set ws. targetNodeId w = a \<and> targetPinIndex w = i)"
  by (induction rule: list_all2_induct) (simp_all add: sameWire_target)

lemmas engine_eval =
  propagateCircuit_def propagateLoop.simps MAX_ITERATIONS_def nodeMapGet_def
  updateNode_def gatherInputs_def pinSignal_def computeNodeLogic_def firstInput_def truthy_def
  gate_def wire_def

section \<open>The store model refines the functional one\<close>

lemma extends_refl: "extends xs xs"
  by (simp add: extends_def)

lemma extends_trans: "extends xs ys \<Longrightarrow> extends ys zs \<Longrightarrow> extends xs zs"
  unfolding extends_def by (metis length_take min.absorb2 nat_le_linear take_all take_take min.commute)

lemma extends_length: "extends xs ys \<Longrightarrow> length xs \<le> length ys"
  unfolding extends_def by (metis length_take min.cobounded1)

lemma extends_nth: "extends xs ys \<Longrightarrow> i < length xs \<Longrightarrow> ys ! i = xs ! i"
  unfolding extends_def by (metis nth_take)

lemma extends_append: "extends xs (xs @ zs)"
  by (simp add: extends_def)

lemma extends_update: "length xs \<le> a \<Longrightarrow> extends xs ys \<Longrightarrow> extends xs (ys[a := v])"
  by (simp add: extends_def take_update_cancel)

lemma readNode_extends:
  "extends arrays arrays' \<Longrightarrow> objInputs n < length arrays \<Longrightarrow>
   readNode arrays' n = readNode arrays n"
  by (simp add: readNode_def extends_nth)


lemma readNode_simps [simp]:
  "nodeId (readNode arrays n) = objId n"
  "nodeType (readNode arrays n) = objType n"
  "nodeState (readNode arrays n) = objState n"
  "nodeInputs (readNode arrays n) = arrays ! objInputs n"
  by (simp_all add: readNode_def)

lemma find_map_option: "find P (map f xs) = map_option f (find (\<lambda>x. P (f x)) xs)"
  by (induction xs) simp_all

lemma nodeMapGet_readNode:
  "nodeMapGet (map (readNode arrays) nodes) k = map_option (readNode arrays) (nodeMapGetS nodes k)"
  by (simp add: nodeMapGet_def nodeMapGetS_def rev_map find_map_option)

lemma updateWiresS_refines:
  "updateWiresS nodes s ws = updateWires (map (readNode arrays) nodes) s ws"
proof (induction ws arbitrary: s)
  case Nil
  show ?case by simp
next
  case (Cons w rest)
  show ?case
    by (cases "nodeMapGetS nodes (sourceNodeId w)")
       (simp_all add: nodeMapGet_readNode Cons.IH)
qed

lemma gather_fold_refines:
  assumes "a < length arrays"
  shows "fold (\<lambda>i (arrs, inputsChanged).
             if arrs ! a ! i \<noteq> f i
             then (arrs[a := (arrs ! a)[i := f i] ], True)
             else (arrs, inputsChanged)) idxs (arrays, c) =
         (arrays[a := fst (fold (\<lambda>i (currentInputs, inputsChanged).
                              if currentInputs ! i \<noteq> f i
                              then (currentInputs[i := f i], True)
                              else (currentInputs, inputsChanged)) idxs (arrays ! a, c))],
          snd (fold (\<lambda>i (currentInputs, inputsChanged).
                              if currentInputs ! i \<noteq> f i
                              then (currentInputs[i := f i], True)
                              else (currentInputs, inputsChanged)) idxs (arrays ! a, c)))"
  using assms
proof (induction idxs arbitrary: arrays c)
  case Nil
  then show ?case by simp
next
  case (Cons i rest)
  show ?case
  proof (cases "arrays ! a ! i \<noteq> f i")
    case True
    let ?arrs = "arrays[a := (arrays ! a)[i := f i] ]"
    have a': "a < length ?arrs" using Cons.prems by simp
    have nth: "?arrs ! a = (arrays ! a)[i := f i]" using Cons.prems by simp
    show ?thesis
      using True Cons.IH [OF a', of True] by (simp add: nth)
  next
    case False
    then show ?thesis using Cons.IH [OF Cons.prems, of c] by simp
  qed
qed

lemma gatherInputsS_refines:
  assumes "a < length arrays"
  shows "gatherInputsS inc a arrays =
           (arrays[a := fst (gatherInputs inc (arrays ! a))], snd (gatherInputs inc (arrays ! a)))"
  unfolding gatherInputsS_def gatherInputs_def
  using gather_fold_refines [OF assms, of "pinSignal inc" "[0..<length (arrays ! a)]" False] .

lemma updateNodeS_refines:
  assumes "objInputs node < length arrays"
    and "updateNodeS wires s arrays node = (s', arrays', node')"
  shows "extends arrays arrays' \<and> objInputs node' < length arrays' \<and>
         (s', readNode arrays' node') = updateNode wires s (readNode arrays node) \<and>
         node' = node\<lparr>objInputs := objInputs node', objState := objState node'\<rparr>"
proof (cases "objType node = INPUT_SWITCH \<or> objType node = CLOCK")
  case True
  then show ?thesis
    using assms by (auto simp: updateNodeS_def updateNode_def extends_refl)
next
  case False
  let ?a = "length arrays" and ?arrays1 = "arrays @ [arrays ! objInputs node]"
  let ?inc = "filter (\<lambda>w. targetNodeId w = objId node) wires"
  let ?ins = "arrays ! objInputs node"
  let ?cur = "fst (gatherInputs ?inc ?ins)" and ?chg = "snd (gatherInputs ?inc ?ins)"
  let ?arrays2 = "arrays @ [?cur]"
  have g: "gatherInputsS ?inc ?a ?arrays1 = (?arrays2, ?chg)"
    using gatherInputsS_refines [of ?a ?arrays1 ?inc] by simp
  have ext: "extends arrays ?arrays2"
    by (rule extends_append)
  have pure: "updateNode wires s (readNode arrays node) =
     (if ?chg
      then (let node1 = (readNode arrays node)\<lparr>nodeInputs := ?cur\<rparr>;
                newOutputState = computeNodeLogic node1 ?cur
            in if nodeState node1 \<noteq> newOutputState
               then (False, node1\<lparr>nodeState := newOutputState\<rparr>)
               else (s, node1))
      else (s, readNode arrays node))"
    using False by (simp add: updateNode_def split: prod.splits)
  have store: "updateNodeS wires s arrays node =
     (if ?chg
      then (let node1 = node\<lparr>objInputs := ?a\<rparr>;
                newOutputState = computeNodeLogic (readNode ?arrays2 node1) ?cur
            in if objState node1 \<noteq> newOutputState
               then (False, ?arrays2, node1\<lparr>objState := newOutputState\<rparr>)
               else (s, ?arrays2, node1))
      else (s, ?arrays2, node))"
    using False by (simp add: updateNodeS_def Let_def g)
  have rd1: "readNode ?arrays2 (node\<lparr>objInputs := ?a\<rparr>) =
             (readNode arrays node)\<lparr>nodeInputs := ?cur\<rparr>"
    by (simp add: readNode_def)
  have rd2: "\<And>b. readNode ?arrays2 (node\<lparr>objInputs := ?a, objState := b\<rparr>) =
             (readNode arrays node)\<lparr>nodeInputs := ?cur, nodeState := b\<rparr>"
    by (simp add: readNode_def)
  have rd0: "readNode ?arrays2 node = readNode arrays node"
    using ext assms(1) by (rule readNode_extends)
  show ?thesis
  proof (cases ?chg)
    case True
    then show ?thesis
      using assms(2) ext unfolding store pure
      by (auto simp: Let_def rd1 rd2 split: if_splits)
  next
    case False
    then have st: "updateNodeS wires s arrays node = (s, ?arrays2, node)"
      unfolding store by (simp only: if_False)
    have "(s, ?arrays2, node) = (s', arrays', node')"
      using assms(2) unfolding st .
    then have r: "s' = s" "arrays' = ?arrays2" "node' = node"
      by blast+
    have "objInputs node' < length arrays'"
      using assms(1) r by simp
    moreover have "(s', readNode arrays' node') = updateNode wires s (readNode arrays node)"
      using False rd0 unfolding pure r by simp
    moreover have "node' = node\<lparr>objInputs := objInputs node', objState := objState node'\<rparr>"
      unfolding r by simp
    ultimately show ?thesis using ext r(2) by simp
  qed
qed


lemma sameObj_refl: "sameObj n n"
  by (simp add: sameObj_def)

lemma sameObj_trans: "sameObj a b \<Longrightarrow> sameObj b c \<Longrightarrow> sameObj a c"
  unfolding sameObj_def by (metis NodeObj.surjective NodeObj.update_convs(4,5))

lemma validRefs_extends:
  "extends arrays arrays' \<Longrightarrow> validRefs arrays nodes \<Longrightarrow> validRefs arrays' nodes"
  unfolding validRefs_def using extends_length by fastforce

lemma map_readNode_extends:
  "extends arrays arrays' \<Longrightarrow> validRefs arrays nodes \<Longrightarrow>
   map (readNode arrays') nodes = map (readNode arrays) nodes"
  by (simp add: validRefs_def readNode_extends)

lemma updateNodesS_refines:
  assumes "validRefs arrays nodes"
    and "updateNodesS wires s arrays nodes = (s', arrays', nodes')"
  shows "extends arrays arrays' \<and> validRefs arrays' nodes' \<and>
         (s', map (readNode arrays') nodes') = updateNodes wires s (map (readNode arrays) nodes) \<and>
         list_all2 sameObj nodes nodes'"
  using assms
proof (induction nodes arbitrary: s arrays s' arrays' nodes')
  case Nil
  then show ?case by (simp add: extends_refl validRefs_def)
next
  case (Cons n rest)
  obtain s1 a1 n1 where one: "updateNodeS wires s arrays n = (s1, a1, n1)"
    by (cases "updateNodeS wires s arrays n") auto
  obtain s2 a2 rest2 where more: "updateNodesS wires s1 a1 rest = (s2, a2, rest2)"
    by (cases "updateNodesS wires s1 a1 rest") auto
  have res: "s' = s2" "arrays' = a2" "nodes' = n1 # rest2"
    using Cons.prems(2) one more by simp_all
  have vn: "objInputs n < length arrays" and vr: "validRefs arrays rest"
    using Cons.prems(1) by (simp_all add: validRefs_def)
  have r1: "extends arrays a1" "objInputs n1 < length a1"
    "(s1, readNode a1 n1) = updateNode wires s (readNode arrays n)" "sameObj n n1"
    using updateNodeS_refines [OF vn one] by (simp_all add: sameObj_def)
  have vr1: "validRefs a1 rest" using r1(1) vr by (rule validRefs_extends)
  have r2: "extends a1 a2" "validRefs a2 rest2"
    "(s2, map (readNode a2) rest2) = updateNodes wires s1 (map (readNode a1) rest)"
    "list_all2 sameObj rest rest2"
    using Cons.IH [OF vr1 more] by simp_all
  have e: "extends arrays a2" using r1(1) r2(1) by (rule extends_trans)
  have v: "validRefs a2 (n1 # rest2)"
    using r2(2) r1(2) extends_length [OF r2(1)] by (simp add: validRefs_def)
  have rn1: "readNode a2 n1 = readNode a1 n1"
    using r2(1) r1(2) by (rule readNode_extends)
  have rrest: "map (readNode a1) rest = map (readNode arrays) rest"
    using r1(1) vr by (rule map_readNode_extends)
  have "updateNodes wires s (map (readNode arrays) (n # rest)) =
          (s2, readNode a1 n1 # map (readNode a2) rest2)"
    using r1(3) [symmetric] r2(3) [symmetric] by (simp add: rrest)
  then have p: "(s', map (readNode arrays') nodes') =
                updateNodes wires s (map (readNode arrays) (n # rest))"
    unfolding res by (simp add: rn1)
  show ?case
    using e v p r1(4) r2(4) unfolding res by simp
qed

lemma propagateLoopS_refines:
  assumes "validRefs arrays nodes"
    and "propagateLoopS s it arrays nodes wires = (s', arrays', nodes', wires')"
  shows "extends arrays arrays' \<and> validRefs arrays' nodes' \<and>
         (s', map (readNode arrays') nodes', wires') =
           propagateLoop s it (map (readNode arrays) nodes) wires \<and>
         list_all2 sameObj nodes nodes'"
  using assms
proof (induction "MAX_ITERATIONS - it" arbitrary: s it arrays nodes wires)
  case 0
  then have stop: "\<not> it < MAX_ITERATIONS" by simp
  have "propagateLoopS s it arrays nodes wires = (s, arrays, nodes, wires)"
    using stop by (subst propagateLoopS.simps) simp
  moreover have "propagateLoop s it (map (readNode arrays) nodes) wires =
                   (s, map (readNode arrays) nodes, wires)"
    using stop by (subst propagateLoop.simps) simp
  ultimately show ?case
    using "0.prems" by (auto simp: extends_refl list_all2_refl sameObj_refl)
next
  case (Suc k)
  show ?case
  proof (cases "\<not> s \<and> it < MAX_ITERATIONS")
    case False
    have "propagateLoopS s it arrays nodes wires = (s, arrays, nodes, wires)"
      using False by (subst propagateLoopS.simps) auto
    moreover have "propagateLoop s it (map (readNode arrays) nodes) wires =
                     (s, map (readNode arrays) nodes, wires)"
      using False by (subst propagateLoop.simps) auto
    ultimately show ?thesis
      using Suc.prems by (auto simp: extends_refl list_all2_refl sameObj_refl)
  next
    case True
    have k: "k = MAX_ITERATIONS - (it + 1)" using Suc.hyps(2) by simp
    obtain s1 ws1 where w: "updateWiresS nodes True wires = (s1, ws1)"
      by (cases "updateWiresS nodes True wires") auto
    obtain s2 a2 ns2 where n: "updateNodesS ws1 s1 arrays nodes = (s2, a2, ns2)"
      by (cases "updateNodesS ws1 s1 arrays nodes") auto
    have stepS: "propagateLoopS s it arrays nodes wires = propagateLoopS s2 (it + 1) a2 ns2 ws1"
      using True w n by (subst propagateLoopS.simps) simp
    have wp: "updateWires (map (readNode arrays) nodes) True wires = (s1, ws1)"
      using w by (simp add: updateWiresS_refines [of nodes True wires arrays])
    have r: "extends arrays a2" "validRefs a2 ns2"
      "(s2, map (readNode a2) ns2) = updateNodes ws1 s1 (map (readNode arrays) nodes)"
      "list_all2 sameObj nodes ns2"
      using updateNodesS_refines [OF Suc.prems(1) n] by simp_all
    have stepP: "propagateLoop s it (map (readNode arrays) nodes) wires =
                 propagateLoop s2 (it + 1) (map (readNode a2) ns2) ws1"
      using True wp r(3) [symmetric] by (subst propagateLoop.simps) simp
    have rest: "propagateLoopS s2 (it + 1) a2 ns2 ws1 = (s', arrays', nodes', wires')"
      using Suc.prems(2) unfolding stepS .
    have ih: "extends a2 arrays'" "validRefs arrays' nodes'"
      "(s', map (readNode arrays') nodes', wires') =
         propagateLoop s2 (it + 1) (map (readNode a2) ns2) ws1"
      "list_all2 sameObj ns2 nodes'"
      using Suc.hyps(1) [OF k r(2) rest] by simp_all
    have "extends arrays arrays'" using r(1) ih(1) by (rule extends_trans)
    moreover have "list_all2 sameObj nodes nodes'"
      by (rule list_all2_chain [where R = sameObj and ys = ns2])
         (use sameObj_trans r(4) ih(4) in blast)+
    ultimately show ?thesis
      using ih(2,3) unfolding stepP by simp
  qed
qed


lemma sameNode_inputs_length: "sameNode n n' \<Longrightarrow> length (nodeInputs n') = length (nodeInputs n)"
  by (simp add: sameNode_def)

section \<open>Properties of the minimizer\<close>

lemma combineScan_filter:
  "combineScan t1 t2 is acc =
     (case (case acc of None \<Rightarrow> [] | Some a \<Rightarrow> [a]) @ filter (differs t1 t2) is of
        [] \<Rightarrow> Some None
      | [d] \<Rightarrow> Some (Some d)
      | _ \<Rightarrow> None)"
proof (induction "is" arbitrary: acc)
  case Nil
  show ?case by (simp split: option.splits)
next
  case (Cons i rest)
  show ?case
    by (cases acc) (simp_all add: Cons.IH differs_def split: list.splits)
qed

lemma combineTerms_filter:
  "combineTerms t1 t2 =
     (case filter (differs t1 t2) [0..<length t1] of
        [d] \<Rightarrow> Some (take d t1 @ ''-'' @ drop (d + 1) t1)
      | _ \<Rightarrow> None)"
  by (simp add: combineTerms_def combineScan_filter split: list.splits)

lemma filter_upt_single:
  "filter P [0..<n] = [d] \<longleftrightarrow> d < n \<and> P d \<and> (\<forall>i < n. i \<noteq> d \<longrightarrow> \<not> P i)"
proof
  assume f: "filter P [0..<n] = [d]"
  then have "set (filter P [0..<n]) = {d}" by simp
  then have "{i. i < n \<and> P i} = {d}" by auto
  then show "d < n \<and> P d \<and> (\<forall>i < n. i \<noteq> d \<longrightarrow> \<not> P i)" by blast
next
  assume a: "d < n \<and> P d \<and> (\<forall>i < n. i \<noteq> d \<longrightarrow> \<not> P i)"
  have "sorted (filter P [0..<n])" "distinct (filter P [0..<n])" by (simp_all add: sorted_wrt_filter)
  moreover have "set (filter P [0..<n]) = set [d]" using a by auto
  moreover have "sorted [d]" "distinct [d]" by simp_all
  ultimately show "filter P [0..<n] = [d]" by (metis sorted_distinct_set_unique)
qed

lemma combineTerms_Some:
  "combineTerms t1 t2 = Some c \<longleftrightarrow>
     (\<exists>d < length t1. differs t1 t2 d \<and> (\<forall>i < length t1. i \<noteq> d \<longrightarrow> \<not> differs t1 t2 i) \<and>
        c = t1[d := CHR ''-''])"
proof
  assume "combineTerms t1 t2 = Some c"
  then obtain d where d: "filter (differs t1 t2) [0..<length t1] = [d]"
    and c: "c = take d t1 @ ''-'' @ drop (d + 1) t1"
    by (auto simp: combineTerms_filter split: list.splits)
  have dl: "d < length t1" using d by (simp add: filter_upt_single)
  have "c = t1[d := CHR ''-'']" using c dl by (simp add: upd_conv_take_nth_drop)
  then show "\<exists>d < length t1. differs t1 t2 d \<and>
      (\<forall>i < length t1. i \<noteq> d \<longrightarrow> \<not> differs t1 t2 i) \<and> c = t1[d := CHR ''-'']"
    using d by (auto simp: filter_upt_single)
next
  assume "\<exists>d < length t1. differs t1 t2 d \<and>
      (\<forall>i < length t1. i \<noteq> d \<longrightarrow> \<not> differs t1 t2 i) \<and> c = t1[d := CHR ''-'']"
  then obtain d where d: "d < length t1" "differs t1 t2 d"
    "\<forall>i < length t1. i \<noteq> d \<longrightarrow> \<not> differs t1 t2 i" "c = t1[d := CHR ''-'']" by blast
  then have "filter (differs t1 t2) [0..<length t1] = [d]" by (simp add: filter_upt_single)
  then show "combineTerms t1 t2 = Some c"
    using d(1,4) by (simp add: combineTerms_filter upd_conv_take_nth_drop)
qed

lemma combineTerms_nonempty: "combineTerms t1 t2 = Some c \<Longrightarrow> c \<noteq> []"
  by (auto simp: combineTerms_Some)

lemma combineTerms_self: "combineTerms t t = None"
proof (cases "combineTerms t t")
  case (Some c)
  then show ?thesis by (auto simp: combineTerms_Some differs_def)
qed simp

lemma differs_sym: "length t1 = length t2 \<Longrightarrow> i < length t1 \<Longrightarrow> differs t1 t2 i = differs t2 t1 i"
  by (auto simp: differs_def charAt_def)

lemma differs_nth: "length t1 = length t2 \<Longrightarrow> i < length t1 \<Longrightarrow> differs t1 t2 i = (t1 ! i \<noteq> t2 ! i)"
  by (auto simp: differs_def charAt_def)

lemma combineTerms_sym:
  assumes "length t1 = length t2"
  shows "combineTerms t1 t2 = combineTerms t2 t1"
proof -
  have dir: "combineTerms b a = Some c"
    if h1: "combineTerms a b = Some c" and h2: "length a = length b" for a b c
  proof -
    obtain d where d: "d < length a" "differs a b d"
      "\<forall>i < length a. i \<noteq> d \<longrightarrow> \<not> differs a b i" "c = a[d := CHR ''-'']"
      using h1 unfolding combineTerms_Some by blast
    have "a[d := CHR ''-''] = b[d := CHR ''-'']"
      using d(1,3) h2 by (intro nth_equalityI) (auto simp: nth_list_update differs_nth)
    then show ?thesis
      using d h2 by (auto simp: combineTerms_Some differs_sym intro!: exI [of _ d])
  qed
  show ?thesis
  proof (cases "combineTerms t1 t2")
    case None
    then show ?thesis using dir [of t2 t1] assms by (cases "combineTerms t2 t1") auto
  next
    case (Some c)
    then show ?thesis using dir [of t1 t2 c] assms by simp
  qed
qed


lemma filter_update_count:
  "i < length xs \<Longrightarrow>
   length (filter P (xs[i := x])) + (if P (xs ! i) then 1 else 0) =
   length (filter P xs) + (if P x then 1 else 0)"
proof (induction xs arbitrary: i)
  case Nil
  then show ?case by simp
next
  case (Cons a xs)
  show ?case
  proof (cases i)
    case 0
    then show ?thesis by simp
  next
    case (Suc j)
    then have "j < length xs" using Cons.prems by simp
    from Cons.IH [OF this] Suc show ?thesis by simp
  qed
qed

lemma isTerm_dashes_le: "isTerm n k t \<Longrightarrow> k \<le> n"
  unfolding isTerm_def using length_filter_le [of "\<lambda>c. c = CHR ''-''" t] by auto

lemma combineTerms_isTerm:
  assumes t1: "isTerm n k t1" and t2: "isTerm n k t2" and c: "combineTerms t1 t2 = Some c"
  shows "\<exists>d < n. c = t1[d := CHR ''-''] \<and> t2 = t1[d := t2 ! d] \<and>
           t1 ! d \<in> {CHR ''0'', CHR ''1''} \<and> t2 ! d \<in> {CHR ''0'', CHR ''1''} \<and>
           t1 ! d \<noteq> t2 ! d \<and> isTerm n (Suc k) c"
proof -
  have l1: "length t1 = n" and l2: "length t2 = n" using t1 t2 by (simp_all add: isTerm_def)
  obtain d where d: "d < length t1" "differs t1 t2 d"
    "\<forall>i < length t1. i \<noteq> d \<longrightarrow> \<not> differs t1 t2 i" "c = t1[d := CHR ''-'']"
    using c unfolding combineTerms_Some by blast
  have dn: "d < n" using d(1) l1 by simp
  have ne: "t1 ! d \<noteq> t2 ! d" using d(1,2) l1 l2 by (simp add: differs_nth)
  have eq: "t2 = t1[d := t2 ! d]"
    using d(1,3) l1 l2 by (intro nth_equalityI) (auto simp: nth_list_update differs_nth)
  let ?P = "\<lambda>c. c = CHR ''-''"
  have k1: "length (filter ?P t1) = k" and k2: "length (filter ?P t2) = k"
    using t1 t2 by (simp_all add: isTerm_def)
  have "length (filter ?P (t1[d := t2 ! d])) + (if ?P (t1 ! d) then 1 else 0) =
        length (filter ?P t1) + (if ?P (t2 ! d) then 1 else 0)"
    using d(1) by (rule filter_update_count)
  then have same: "?P (t1 ! d) = ?P (t2 ! d)"
    using k1 k2 eq by (auto split: if_splits)
  then have nd1: "t1 ! d \<noteq> CHR ''-''" and nd2: "t2 ! d \<noteq> CHR ''-''" using ne by auto
  have "t1 ! d \<in> set t1" "t2 ! d \<in> set t2" using dn l1 l2 by simp_all
  then have in1: "t1 ! d \<in> {CHR ''0'', CHR ''1''}" and in2: "t2 ! d \<in> {CHR ''0'', CHR ''1''}"
    using t1 t2 nd1 nd2 unfolding isTerm_def by auto
  have "length (filter ?P (t1[d := CHR ''-''])) + (if ?P (t1 ! d) then 1 else 0) =
        length (filter ?P t1) + (if ?P (CHR ''-'') then 1 else 0)"
    using d(1) by (rule filter_update_count)
  then have cnt: "length (filter ?P c) = Suc k" using nd1 k1 d(4) by simp
  have "set c \<subseteq> {CHR ''0'', CHR ''1'', CHR ''-''}"
    using t1 d(4) set_update_subset_insert [of t1 d "CHR ''-''"] unfolding isTerm_def by auto
  then have "isTerm n (Suc k) c" using cnt l1 d(4) by (simp add: isTerm_def)
  then show ?thesis using dn d(4) eq in1 in2 ne by blast
qed

lemma combineTerms_covers:
  assumes t1: "isTerm n k t1" and t2: "isTerm n k t2" and c: "combineTerms t1 t2 = Some c"
    and b: "isBits n b"
  shows "covers c b \<longleftrightarrow> covers t1 b \<or> covers t2 b"
proof -
  obtain d where d: "d < n" "c = t1[d := CHR ''-'']" "t2 = t1[d := t2 ! d]"
    "t1 ! d \<in> {CHR ''0'', CHR ''1''}" "t2 ! d \<in> {CHR ''0'', CHR ''1''}" "t1 ! d \<noteq> t2 ! d"
    using combineTerms_isTerm [OF t1 t2 c] by blast
  have l1: "length t1 = n" and lb: "length b = n" using t1 b by (simp_all add: isTerm_def isBits_def)
  have "b ! d \<in> set b" using d(1) lb by simp
  then have bd: "b ! d = t1 ! d \<or> b ! d = t2 ! d"
    using b d(4,5,6) unfolding isBits_def by auto
  have c_iff: "covers c b \<longleftrightarrow> (\<forall>i < n. i \<noteq> d \<longrightarrow> t1 ! i = CHR ''-'' \<or> t1 ! i = b ! i)"
    unfolding covers_def d(2) using l1 lb d(1) by (auto simp: nth_list_update)
  have t1_iff: "covers t1 b \<longleftrightarrow>
      (\<forall>i < n. i \<noteq> d \<longrightarrow> t1 ! i = CHR ''-'' \<or> t1 ! i = b ! i) \<and> t1 ! d = b ! d"
    unfolding covers_def using l1 lb d(1,4) by auto
  have "covers t2 b \<longleftrightarrow> covers (t1[d := t2 ! d]) b" using d(3) by simp
  also have "\<dots> \<longleftrightarrow>
      (\<forall>i < n. i \<noteq> d \<longrightarrow> t1 ! i = CHR ''-'' \<or> t1 ! i = b ! i) \<and> t2 ! d = b ! d"
    unfolding covers_def using l1 lb d(1,5) by (auto simp: nth_list_update)
  finally have t2_iff: "covers t2 b \<longleftrightarrow>
      (\<forall>i < n. i \<noteq> d \<longrightarrow> t1 ! i = CHR ''-'' \<or> t1 ! i = b ! i) \<and> t2 ! d = b ! d" .
  show ?thesis
    unfolding c_iff t1_iff t2_iff using bd by auto
qed


lemma set_setAdd [simp]: "set (setAdd xs x) = insert x (set xs)"
  by (auto simp: setAdd_def)

lemma distinct_setAdd [simp]: "distinct (setAdd xs x) = distinct xs"
  by (auto simp: setAdd_def)

lemma innerLoop_fst:
  "set (fst (innerLoop ti rest (nx, us))) =
     set nx \<union> {c. \<exists>tj \<in> set rest. combineTerms ti tj = Some c}"
proof (induction rest arbitrary: nx us)
  case Nil
  show ?case by simp
next
  case (Cons tj rest)
  show ?case
  proof (cases "combineTerms ti tj")
    case None
    then show ?thesis by (simp add: Cons.IH)
  next
    case (Some c)
    then have "c \<noteq> []" by (rule combineTerms_nonempty)
    with Some show ?thesis by (auto simp: Cons.IH)
  qed
qed

lemma innerLoop_snd:
  "set (snd (innerLoop ti rest (nx, us))) =
     set us \<union> {t. \<exists>tj \<in> set rest. combineTerms ti tj \<noteq> None \<and> (t = ti \<or> t = tj)}"
proof (induction rest arbitrary: nx us)
  case Nil
  show ?case by simp
next
  case (Cons tj rest)
  show ?case
  proof (cases "combineTerms ti tj")
    case None
    then show ?thesis by (simp add: Cons.IH)
  next
    case (Some c)
    then have "c \<noteq> []" by (rule combineTerms_nonempty)
    with Some show ?thesis by (auto simp: Cons.IH)
  qed
qed

lemma innerLoop_distinct:
  "distinct nx \<Longrightarrow> distinct (fst (innerLoop ti rest (nx, us)))"
  by (induction rest arbitrary: nx us) (auto split: option.splits)

lemma pairsOf_Cons_ex:
  "(\<exists>(a, b) \<in> pairsOf (x # xs). Q a b) \<longleftrightarrow>
     (\<exists>y \<in> set xs. Q x y) \<or> (\<exists>(a, b) \<in> pairsOf xs. Q a b)"
  by auto

lemma outerLoop_fst:
  "set (fst (outerLoop cur acc)) =
     set (fst acc) \<union> {c. \<exists>(a, b) \<in> pairsOf cur. combineTerms a b = Some c}"
proof (induction cur arbitrary: acc)
  case Nil
  show ?case by simp
next
  case (Cons ti rest)
  obtain nx us where acc: "acc = (nx, us)" by (cases acc)
  have "set (fst (outerLoop (ti # rest) acc)) =
          set (fst (innerLoop ti rest (nx, us))) \<union>
          {c. \<exists>(a, b) \<in> pairsOf rest. combineTerms a b = Some c}"
    unfolding acc by (simp add: Cons.IH)
  also have "\<dots> = set (fst acc) \<union> {c. \<exists>(a, b) \<in> pairsOf (ti # rest). combineTerms a b = Some c}"
    unfolding innerLoop_fst pairsOf_Cons_ex acc by auto
  finally show ?case .
qed

lemma outerLoop_snd:
  "set (snd (outerLoop cur acc)) =
     set (snd acc) \<union>
     {t. \<exists>(a, b) \<in> pairsOf cur. combineTerms a b \<noteq> None \<and> (t = a \<or> t = b)}"
proof (induction cur arbitrary: acc)
  case Nil
  show ?case by simp
next
  case (Cons ti rest)
  obtain nx us where acc: "acc = (nx, us)" by (cases acc)
  have "set (snd (outerLoop (ti # rest) acc)) =
          set (snd (innerLoop ti rest (nx, us))) \<union>
          {t. \<exists>(a, b) \<in> pairsOf rest. combineTerms a b \<noteq> None \<and> (t = a \<or> t = b)}"
    unfolding acc by (simp add: Cons.IH)
  also have "\<dots> = set (snd acc) \<union>
          {t. \<exists>(a, b) \<in> pairsOf (ti # rest). combineTerms a b \<noteq> None \<and> (t = a \<or> t = b)}"
    unfolding innerLoop_snd pairsOf_Cons_ex acc by auto
  finally show ?case .
qed

lemma outerLoop_distinct:
  "distinct (fst acc) \<Longrightarrow> distinct (fst (outerLoop cur acc))"
proof (induction cur arbitrary: acc)
  case Nil
  then show ?case by simp
next
  case (Cons ti rest)
  obtain nx us where acc: "acc = (nx, us)" by (cases acc)
  show ?case
    using Cons.prems unfolding acc by (simp add: Cons.IH innerLoop_distinct)
qed

lemma pairsOf_sub: "(a, b) \<in> pairsOf xs \<Longrightarrow> a \<in> set xs \<and> b \<in> set xs"
  by (induction xs) auto

lemma pairsOf_complete:
  "a \<in> set xs \<Longrightarrow> b \<in> set xs \<Longrightarrow> a \<noteq> b \<Longrightarrow> (a, b) \<in> pairsOf xs \<or> (b, a) \<in> pairsOf xs"
  by (induction xs) auto

lemma outerLoop_nextSet:
  assumes "\<forall>t \<in> set cur. length t = n"
  shows "set (fst (outerLoop cur ([], []))) = nextSet (set cur)"
proof -
  have "{c. \<exists>(a, b) \<in> pairsOf cur. combineTerms a b = Some c} = nextSet (set cur)"
  proof (intro equalityI subsetI)
    fix c assume "c \<in> {c. \<exists>(a, b) \<in> pairsOf cur. combineTerms a b = Some c}"
    then show "c \<in> nextSet (set cur)"
      unfolding nextSet_def using pairsOf_sub by fastforce
  next
    fix c assume "c \<in> nextSet (set cur)"
    then obtain a b where ab: "a \<in> set cur" "b \<in> set cur" "combineTerms a b = Some c"
      unfolding nextSet_def by blast
    then have "a \<noteq> b" using combineTerms_self by auto
    with ab(1,2) have "(a, b) \<in> pairsOf cur \<or> (b, a) \<in> pairsOf cur"
      by (rule pairsOf_complete)
    then consider "(a, b) \<in> pairsOf cur" | "(b, a) \<in> pairsOf cur"
      by blast
    then show "c \<in> {c. \<exists>(a, b) \<in> pairsOf cur. combineTerms a b = Some c}"
    proof cases
      case 1
      then show ?thesis using ab(3) by blast
    next
      case 2
      have "combineTerms b a = Some c"
        using ab combineTerms_sym [of a b] assms by simp
      then show ?thesis using 2 by blast
    qed
  qed
  then show ?thesis by (simp add: outerLoop_fst)
qed

lemma outerLoop_usedSet:
  assumes "\<forall>t \<in> set cur. length t = n"
  shows "set (snd (outerLoop cur ([], []))) = usedSet (set cur)"
proof -
  have "{t. \<exists>(a, b) \<in> pairsOf cur. combineTerms a b \<noteq> None \<and> (t = a \<or> t = b)}
        = usedSet (set cur)"
  proof (intro equalityI subsetI)
    fix t assume "t \<in> {t. \<exists>(a, b) \<in> pairsOf cur. combineTerms a b \<noteq> None \<and> (t = a \<or> t = b)}"
    then obtain a b where ab: "(a, b) \<in> pairsOf cur" "combineTerms a b \<noteq> None" "t = a \<or> t = b"
      by blast
    have in_cur: "a \<in> set cur" "b \<in> set cur" using pairsOf_sub [OF ab(1)] by simp_all
    have "combineTerms b a \<noteq> None"
      using ab(2) combineTerms_sym [of a b] in_cur assms by simp
    then show "t \<in> usedSet (set cur)"
      unfolding usedSet_def using ab(2,3) in_cur by blast
  next
    fix t assume "t \<in> usedSet (set cur)"
    then obtain b where tb: "t \<in> set cur" "b \<in> set cur" "combineTerms t b \<noteq> None"
      unfolding usedSet_def by blast
    then have "t \<noteq> b" using combineTerms_self by auto
    with tb(1,2) have "(t, b) \<in> pairsOf cur \<or> (b, t) \<in> pairsOf cur"
      by (rule pairsOf_complete)
    then consider "(t, b) \<in> pairsOf cur" | "(b, t) \<in> pairsOf cur"
      by blast
    then show "t \<in> {t. \<exists>(a, b) \<in> pairsOf cur. combineTerms a b \<noteq> None \<and> (t = a \<or> t = b)}"
    proof cases
      case 1
      then show ?thesis using tb(3) by blast
    next
      case 2
      have "combineTerms b t \<noteq> None"
        using tb combineTerms_sym [of t b] assms by simp
      then show ?thesis using 2 by blast
    qed
  qed
  then show ?thesis by (simp add: outerLoop_snd)
qed

lemma collectPrimes_set:
  "set (collectPrimes cur used pis) = set pis \<union> (set cur - set used)"
  unfolding collectPrimes_def
  by (induction cur arbitrary: pis) auto

lemma collectPrimes_distinct:
  "distinct pis \<Longrightarrow> distinct (collectPrimes cur used pis)"
  unfolding collectPrimes_def
  by (induction cur arbitrary: pis) auto


lemma qmLoop_unfold:
  "qmLoop cur pis =
     (if cur = [] then Some pis
      else if nextTermsOf cur = [] then Some (collectPrimes cur (usedTermsOf cur) pis)
      else qmLoop (nextTermsOf cur) (collectPrimes cur (usedTermsOf cur) pis))"
  by (subst qmLoop.simps) (simp add: nextTermsOf_def usedTermsOf_def split: prod.splits)

lemma isTerm_length: "isTerm n k t \<Longrightarrow> length t = n"
  by (simp add: isTerm_def)

lemma step_sets:
  assumes "\<forall>t \<in> set cur. isTerm n k t"
  shows "set (nextTermsOf cur) = nextSet (set cur)" and "set (usedTermsOf cur) = usedSet (set cur)"
proof -
  have len: "\<forall>t \<in> set cur. length t = n" using assms isTerm_length by blast
  show "set (nextTermsOf cur) = nextSet (set cur)"
    unfolding nextTermsOf_def using len by (rule outerLoop_nextSet)
  show "set (usedTermsOf cur) = usedSet (set cur)"
    unfolding usedTermsOf_def using len by (rule outerLoop_usedSet)
qed

lemma nextSet_isTerm:
  assumes "\<forall>t \<in> S. isTerm n k t" and "c \<in> nextSet S"
  shows "isTerm n (Suc k) c"
proof -
  obtain a b where "a \<in> S" "b \<in> S" "combineTerms a b = Some c"
    using assms(2) unfolding nextSet_def by blast
  then show ?thesis using combineTerms_isTerm [of n k a b c] assms(1) by blast
qed

lemma step_covers:
  assumes wf: "\<forall>t \<in> S. isTerm n k t" and b: "isBits n b"
  shows "(\<exists>t \<in> nextSet S \<union> (S - usedSet S). covers t b) \<longleftrightarrow> (\<exists>t \<in> S. covers t b)"
proof
  assume "\<exists>t \<in> nextSet S \<union> (S - usedSet S). covers t b"
  then obtain t where t: "t \<in> nextSet S \<union> (S - usedSet S)" "covers t b" by blast
  show "\<exists>t \<in> S. covers t b"
  proof (cases "t \<in> nextSet S")
    case True
    then obtain a c where ac: "a \<in> S" "c \<in> S" "combineTerms a c = Some t"
      unfolding nextSet_def by blast
    then have "covers a b \<or> covers c b"
      using combineTerms_covers [of n k a c t b] wf b t(2) by blast
    then show ?thesis using ac by blast
  next
    case False
    then show ?thesis using t by blast
  qed
next
  assume "\<exists>t \<in> S. covers t b"
  then obtain t where t: "t \<in> S" "covers t b" by blast
  show "\<exists>t \<in> nextSet S \<union> (S - usedSet S). covers t b"
  proof (cases "t \<in> usedSet S")
    case True
    then obtain c u where cu: "c \<in> S" "combineTerms t c = Some u"
      unfolding usedSet_def by blast
    then have "covers u b"
      using combineTerms_covers [of n k t c u b] wf b t by blast
    moreover have "u \<in> nextSet S" unfolding nextSet_def using t(1) cu by blast
    ultimately show ?thesis by blast
  next
    case False
    then show ?thesis using t by blast
  qed
qed

lemma qmLoop_cover:
  assumes "\<forall>t \<in> set cur. isTerm n k t"
  shows "\<exists>r. qmLoop cur pis = Some r \<and> (distinct pis \<longrightarrow> distinct r) \<and>
           (\<forall>t \<in> set r. t \<in> set pis \<or> (\<exists>j. isTerm n j t)) \<and>
           (\<forall>b. isBits n b \<longrightarrow>
              ((\<exists>t \<in> set r. covers t b) \<longleftrightarrow> (\<exists>t \<in> set cur \<union> set pis. covers t b)))"
  using assms
proof (induction "n - k" arbitrary: k cur pis rule: less_induct)
  case less
  let ?nx = "nextTermsOf cur" and ?pis = "collectPrimes cur (usedTermsOf cur) pis"
  have sets: "set ?nx = nextSet (set cur)" "set (usedTermsOf cur) = usedSet (set cur)"
    using step_sets [OF less.prems] by simp_all
  have pis: "set ?pis = set pis \<union> (set cur - usedSet (set cur))"
    by (simp add: collectPrimes_set sets)
  have cov: "(\<exists>t \<in> set ?nx \<union> set ?pis. covers t b) \<longleftrightarrow> (\<exists>t \<in> set cur \<union> set pis. covers t b)"
    if "isBits n b" for b
    using step_covers [OF less.prems that] unfolding sets pis by blast
  have wfp: "\<forall>t \<in> set ?pis. t \<in> set pis \<or> (\<exists>j. isTerm n j t)"
    unfolding pis using less.prems by blast
  show ?case
  proof (cases "cur = []")
    case True
    then show ?thesis by (subst qmLoop_unfold) simp
  next
    case ne: False
    show ?thesis
    proof (cases "?nx = []")
      case True
      have eq: "qmLoop cur pis = Some ?pis"
        using ne True by (subst qmLoop_unfold) simp
      show ?thesis
        unfolding eq using cov True wfp by (simp add: collectPrimes_distinct)
    next
      case False
      have eq: "qmLoop cur pis = qmLoop ?nx ?pis"
        using ne False by (subst qmLoop_unfold) simp
      have wf': "\<forall>t \<in> set ?nx. isTerm n (Suc k) t"
        using nextSet_isTerm [OF less.prems] sets(1) by blast
      obtain t where "t \<in> set ?nx" using False by (cases ?nx) auto
      then have "Suc k \<le> n" using wf' isTerm_dashes_le by blast
      then have "n - Suc k < n - k" by simp
      from less.hyps [OF this wf', of ?pis]
      obtain r where r: "qmLoop ?nx ?pis = Some r" "distinct ?pis \<longrightarrow> distinct r"
        "\<forall>t \<in> set r. t \<in> set ?pis \<or> (\<exists>j. isTerm n j t)"
        "\<forall>b. isBits n b \<longrightarrow>
            ((\<exists>t \<in> set r. covers t b) \<longleftrightarrow> (\<exists>t \<in> set ?nx \<union> set ?pis. covers t b))"
        by blast
      have "\<forall>t \<in> set r. t \<in> set pis \<or> (\<exists>j. isTerm n j t)"
        using r(3) wfp by blast
      then show ?thesis
        unfolding eq using r(1,2,4) cov by (simp add: collectPrimes_distinct)
    qed
  qed
qed

lemma qmLoop_order:
  assumes "\<forall>t \<in> set cur. isTerm n k t" and "set cur = set cur'" and "set pis = set pis'"
  shows "\<exists>r r'. qmLoop cur pis = Some r \<and> qmLoop cur' pis' = Some r' \<and> set r = set r'"
  using assms
proof (induction "n - k" arbitrary: k cur cur' pis pis' rule: less_induct)
  case less
  let ?nx = "nextTermsOf cur" and ?pis = "collectPrimes cur (usedTermsOf cur) pis"
  let ?nx' = "nextTermsOf cur'" and ?pis' = "collectPrimes cur' (usedTermsOf cur') pis'"
  have wf2: "\<forall>t \<in> set cur'. isTerm n k t" using less.prems(1,2) by simp
  have sets: "set ?nx = nextSet (set cur)" "set (usedTermsOf cur) = usedSet (set cur)"
    using step_sets [OF less.prems(1)] by simp_all
  have sets': "set ?nx' = nextSet (set cur)" "set (usedTermsOf cur') = usedSet (set cur)"
    using step_sets [OF wf2] less.prems(2) by simp_all
  have nx: "set ?nx = set ?nx'" using sets sets' by simp
  have pis: "set ?pis = set ?pis'"
    using sets sets' less.prems(2,3) by (simp add: collectPrimes_set)
  have emp: "(cur = []) = (cur' = [])" using less.prems(2) by (metis set_empty)
  have emp2: "(?nx = []) = (?nx' = [])" using nx by (metis set_empty)
  show ?case
  proof (cases "cur = []")
    case True
    then have "cur' = []" using emp by simp
    with True show ?thesis
      using less.prems(3) by (subst (1 2) qmLoop_unfold) simp
  next
    case ne: False
    then have ne': "cur' \<noteq> []" using emp by simp
    show ?thesis
    proof (cases "?nx = []")
      case True
      then have T': "?nx' = []" using emp2 by simp
      have "qmLoop cur pis = Some ?pis" using ne True by (subst qmLoop_unfold) simp
      moreover have "qmLoop cur' pis' = Some ?pis'" using ne' T' by (subst qmLoop_unfold) simp
      ultimately show ?thesis using pis by simp
    next
      case False
      then have F': "?nx' \<noteq> []" using emp2 by simp
      have eq: "qmLoop cur pis = qmLoop ?nx ?pis"
        using ne False by (subst qmLoop_unfold) simp
      have eq': "qmLoop cur' pis' = qmLoop ?nx' ?pis'"
        using ne' F' by (subst qmLoop_unfold) simp
      have wf': "\<forall>t \<in> set ?nx. isTerm n (Suc k) t"
        using nextSet_isTerm [OF less.prems(1)] sets(1) by blast
      obtain t where "t \<in> set ?nx" using False by (cases ?nx) auto
      then have "Suc k \<le> n" using wf' isTerm_dashes_le by blast
      then have "n - Suc k < n - k" by simp
      from less.hyps [OF this wf' nx pis]
      show ?thesis unfolding eq eq' .
    qed
  qed
qed


lemma length_binStr [simp]: "length (binStr n m) = n"
  by (induction n arbitrary: m) simp_all

lemma binStr_zero: "binStr n 0 = replicate n CHR ''0''"
  by (induction n) (simp_all add: digit_def replicate_append_same)

lemma padStart_snoc: "padStart (xs @ [d]) (Suc n) c = padStart xs n c @ [d]"
  by (simp add: padStart_def)

lemma toBinary_small: "m < 2 \<Longrightarrow> toBinary m = [digit m]"
  by (subst toBinary.simps) (simp add: digit_def)

lemma toBinary_large: "\<not> m < 2 \<Longrightarrow> toBinary m = toBinary (m div 2) @ [digit (m mod 2)]"
  by (subst toBinary.simps) (simp add: digit_def)

lemma padStart_toBinary:
  "1 \<le> n \<Longrightarrow> m < 2 ^ n \<Longrightarrow> padStart (toBinary m) n CHR ''0'' = binStr n m"
proof (induction n arbitrary: m)
  case 0
  then show ?case by simp
next
  case (Suc n)
  show ?case
  proof (cases "m < 2")
    case True
    then have "m div 2 = 0" "m mod 2 = m" by simp_all
    then show ?thesis
      using True by (simp add: toBinary_small padStart_def binStr_zero)
  next
    case False
    have n1: "1 \<le> n"
    proof (rule ccontr)
      assume "\<not> 1 \<le> n"
      then have "n = 0" by simp
      with Suc.prems(2) False show False by simp
    qed
    have "m div 2 < 2 ^ n" using Suc.prems(2) by simp
    from Suc.IH [OF n1 this] show ?thesis
      using False by (simp add: toBinary_large padStart_snoc)
  qed
qed

lemma binStr_bits: "set (binStr n m) \<subseteq> {CHR ''0'', CHR ''1''}"
  by (induction n arbitrary: m) (auto simp: digit_def)

lemma isBits_binStr: "isBits n (binStr n m)"
  by (simp add: isBits_def binStr_bits)

lemma isTerm_binStr: "isTerm n 0 (binStr n m)"
proof -
  have "filter (\<lambda>c. c = CHR ''-'') (binStr n m) = []"
    using binStr_bits [of n m] by (auto simp: filter_empty_conv)
  then show ?thesis
    using binStr_bits [of n m] by (auto simp: isTerm_def)
qed

lemma binStr_nth:
  "i < n \<Longrightarrow> binStr n m ! i = (if varValue n m i then CHR ''1'' else CHR ''0'')"
proof (induction n arbitrary: m i)
  case 0
  then show ?case by simp
next
  case (Suc n)
  show ?case
  proof (cases "i < n")
    case True
    have "(m div 2) div 2 ^ (n - 1 - i) = m div 2 ^ (Suc n - 1 - i)"
    proof -
      have "Suc n - 1 - i = Suc (n - 1 - i)" using True by simp
      then show ?thesis by (simp add: div_mult2_eq)
    qed
    then have "varValue n (m div 2) i = varValue (Suc n) m i"
      by (simp add: varValue_def)
    then show ?thesis
      using Suc.IH [OF True, of "m div 2"] True by (simp add: nth_append)
  next
    case False
    then have "i = n" using Suc.prems by simp
    then show ?thesis
      by (simp add: nth_append varValue_def digit_def odd_iff_mod_2_eq_one)
  qed
qed

lemma binStr_inj:
  "a < 2 ^ n \<Longrightarrow> b < 2 ^ n \<Longrightarrow> binStr n a = binStr n b \<Longrightarrow> a = b"
proof (induction n arbitrary: a b)
  case 0
  then show ?case by simp
next
  case (Suc n)
  from Suc.prems(3) have e: "binStr n (a div 2) = binStr n (b div 2)"
    and d: "digit (a mod 2) = digit (b mod 2)" by simp_all
  have "a div 2 < 2 ^ n" "b div 2 < 2 ^ n" using Suc.prems(1,2) by simp_all
  then have "a div 2 = b div 2" using Suc.IH e by blast
  moreover have "a mod 2 = b mod 2" using d by (auto simp: digit_def split: if_splits)
  ultimately show ?case by (metis div_mult_mod_eq)
qed

lemma covers_evalTerm:
  assumes "isTerm n k t"
  shows "covers t (binStr n a) \<longleftrightarrow> evalTerm n t a"
proof -
  have len: "length t = n" and alpha: "set t \<subseteq> {CHR ''0'', CHR ''1'', CHR ''-''}"
    using assms by (simp_all add: isTerm_def)
  have "\<forall>i < n. t ! i \<in> {CHR ''0'', CHR ''1'', CHR ''-''}"
    using alpha len by (metis nth_mem subsetD)
  then show ?thesis
    unfolding covers_def evalTerm_def len by (auto simp: binStr_nth)
qed

lemma covers_binStr:
  "a < 2 ^ n \<Longrightarrow> m < 2 ^ n \<Longrightarrow> covers (binStr n m) (binStr n a) \<longleftrightarrow> m = a"
proof
  assume b: "a < 2 ^ n" "m < 2 ^ n" and c: "covers (binStr n m) (binStr n a)"
  have "\<forall>i < n. binStr n m ! i \<noteq> CHR ''-''"
    by (simp add: binStr_nth)
  then have "binStr n m = binStr n a"
    using c by (intro nth_equalityI) (auto simp: covers_def)
  then show "m = a" using b binStr_inj by blast
next
  assume "m = a"
  then show "covers (binStr n m) (binStr n a)" by (simp add: covers_def)
qed

lemma fold_setAdd_set: "set (fold (\<lambda>m g. setAdd g (f m)) ms g0) = set g0 \<union> f ` set ms"
  by (induction ms arbitrary: g0) auto

lemma fold_setAdd_distinct: "distinct g0 \<Longrightarrow> distinct (fold (\<lambda>m g. setAdd g (f m)) ms g0)"
  by (induction ms arbitrary: g0) auto

lemma initGroups_set:
  assumes "1 \<le> n" and "\<forall>m \<in> set ms. m < 2 ^ n"
  shows "set (initGroups n ms) = binStr n ` set ms"
proof -
  have "(\<lambda>m. padStart (toBinary m) n CHR ''0'') ` set ms = binStr n ` set ms"
    using assms by (intro image_cong refl) (simp add: padStart_toBinary)
  then show ?thesis by (simp add: initGroups_def fold_setAdd_set)
qed

lemma solveQuineMcCluskey_unfold:
  "solveQuineMcCluskey numVars minterms =
     (if length minterms = 0 then Some []
      else if length minterms = 2 ^ numVars then Some [replicate numVars CHR ''-'']
      else map_option sort (qmLoop (initGroups numVars minterms) []))"
  by (simp add: solveQuineMcCluskey_def initGroups_def)

lemma full_minterms:
  assumes "distinct ms" and "\<forall>m \<in> set ms. m < (2::nat) ^ n" and "length ms = 2 ^ n"
  shows "set ms = {..<2 ^ n}"
proof (rule card_subset_eq)
  show "finite {..<(2::nat) ^ n}" by simp
  show "set ms \<subseteq> {..<2 ^ n}" using assms(2) by auto
  show "card (set ms) = card {..<(2::nat) ^ n}"
    using assms(1,3) by (simp add: distinct_card)
qed


lemma initGroups_isTerm:
  assumes "1 \<le> n" and "\<forall>m \<in> set ms. m < 2 ^ n"
  shows "\<forall>t \<in> set (initGroups n ms). isTerm n 0 t"
  using initGroups_set [OF assms] isTerm_binStr by auto

lemma evalTerm_dashes: "evalTerm n (replicate n CHR ''-'') a"
  by (simp add: evalTerm_def)

section \<open>Properties of the synthesizer\<close>















section \<open>What a call of the engine does establish\<close>

text \<open>
  Phase 2 recomputes the output of a node only under \<^verbatim>\<open>if (inputsChanged)\<close>. Hence a node
  is consistent with its function table after the call when it was consistent before it,
  or when the call changed its input vector.
\<close>

lemma propagateCircuit_keeps_logic:
  assumes "propagateCircuit nodes wires = (nodes', wires')" and "i < length nodes"
    and "nodeState (nodes ! i) = computeNodeLogic (nodes ! i) (nodeInputs (nodes ! i)) \<or>
         nodeInputs (nodes' ! i) \<noteq> nodeInputs (nodes ! i)"
  shows "nodeState (nodes' ! i) = computeNodeLogic (nodes' ! i) (nodeInputs (nodes' ! i))"
  using propagateCircuit_keepsLogic [of nodes wires] assms
  by (auto simp: list_all2_conv_all_nth keepsLogic_def logicOk_def)

text \<open>
  The floating-low default: in every round (\<open>updateNode\<close>, for any wires and any flag) and
  in the returned snapshot, an input pin of a non-source node that no wire targets reads
  false.
\<close>

lemma floating_inputs_low:
  assumes "propagateCircuit nodes wires = (nodes', wires')" and "j < length nodes"
    and "nodeType (nodes ! j) \<noteq> INPUT_SWITCH" and "nodeType (nodes ! j) \<noteq> CLOCK"
  shows "(\<forall>ws s. \<forall>i < length (nodeInputs (nodes ! j)).
            \<not> (\<exists>w \<in> set ws. targetNodeId w = nodeId (nodes ! j) \<and> targetPinIndex w = i) \<longrightarrow>
            nodeInputs (snd (updateNode ws s (nodes ! j))) ! i = False) \<and>
         (\<forall>i < length (nodeInputs (nodes ! j)).
            \<not> (\<exists>w \<in> set wires. targetNodeId w = nodeId (nodes ! j) \<and> targetPinIndex w = i) \<longrightarrow>
            nodeInputs (nodes' ! j) ! i = False)"
proof (intro conjI allI impI)
  have ns: "nonSource (nodes ! j)" using assms(3,4) by (simp add: nonSource_def)
  have fr: "list_all2 sameNode nodes nodes'" "list_all2 sameWire wires wires'"
    using propagateCircuit_frame_rel [of nodes wires] assms(1) by simp_all
  have j': "j < length nodes'" and sn: "sameNode (nodes ! j) (nodes' ! j)"
    using fr(1) assms(2) by (simp_all add: list_all2_conv_all_nth)
  have ns': "nonSource (nodes' ! j)"
    using ns sameNode_type [OF sn] by (simp add: nonSource_def)
  have len: "length (nodeInputs (nodes' ! j)) = length (nodeInputs (nodes ! j))"
    using sn by (simp add: sameNode_def)
  have inp: "nodeInputs (nodes' ! j) = signals wires' (nodes' ! j)"
    using propagateCircuit_inputsFromWires [of nodes wires] assms(1) j' ns'
    by (simp add: inputsFromWires_def)
  {
    fix ws :: "Wire list" and s :: bool and i :: nat
    assume "i < length (nodeInputs (nodes ! j))"
      and "\<not> (\<exists>w \<in> set ws. targetNodeId w = nodeId (nodes ! j) \<and> targetPinIndex w = i)"
    then show "nodeInputs (snd (updateNode ws s (nodes ! j))) ! i = False"
      using ns by (simp add: updateNode_eq nodeStep_inputs signals_floating)
  }
  {
    fix i
    assume i: "i < length (nodeInputs (nodes ! j))"
      and free: "\<not> (\<exists>w \<in> set wires. targetNodeId w = nodeId (nodes ! j) \<and> targetPinIndex w = i)"
    have "\<not> (\<exists>w \<in> set wires'. targetNodeId w = nodeId (nodes' ! j) \<and> targetPinIndex w = i)"
      using free sameWire_targets [OF fr(2), of "nodeId (nodes ! j)" i] sameNode_id [OF sn]
      by simp
    then show "nodeInputs (nodes' ! j) ! i = False"
      using i len by (subst inp) (simp add: signals_floating)
  }
qed

text \<open>
  Wires with a missing end. A wire whose target id matches no node has no effect on any
  node nor on any other wire: removing it from the input gives the same nodes and the same
  remaining wires. A wire whose source id matches no node is never written: it is returned
  with its stored state.
\<close>

lemma dangling_connections:
  assumes "propagateCircuit nodes (ws1 @ w # ws2) = (nodes', wires')"
  shows "(targetNodeId w \<notin> nodeId ` set nodes \<longrightarrow>
            propagateCircuit nodes (ws1 @ ws2) =
              (nodes', take (length ws1) wires' @ drop (Suc (length ws1)) wires')) \<and>
         (sourceNodeId w \<notin> nodeId ` set nodes \<longrightarrow> wires' ! length ws1 = w)"
proof (intro conjI impI)
  assume "targetNodeId w \<notin> nodeId ` set nodes"
  then obtain w' xs' ys' where r: "length xs' = length ws1"
    "snd (propagateLoop False 0 nodes (ws1 @ w # ws2)) =
       (fst (snd (propagateLoop False 0 nodes (ws1 @ ws2))), xs' @ w' # ys')"
    "snd (snd (propagateLoop False 0 nodes (ws1 @ ws2))) = xs' @ ys'"
    using propagateLoop_skip [of w nodes ws1 False 0 ws2] by blast
  have "nodes' = fst (snd (propagateLoop False 0 nodes (ws1 @ ws2)))" "wires' = xs' @ w' # ys'"
    using assms r(2) by (simp_all add: propagateCircuit_def)
  then show "propagateCircuit nodes (ws1 @ ws2) =
              (nodes', take (length ws1) wires' @ drop (Suc (length ws1)) wires')"
    using r(1,3) by (simp add: propagateCircuit_def prod_eq_iff)
next
  assume "sourceNodeId w \<notin> nodeId ` set nodes"
  then show "wires' ! length ws1 = w"
    using propagateLoop_dangling_source [of w nodes False 0 ws1 ws2] assms
    by (simp add: propagateCircuit_def)
qed
section \<open>Gate truth tables\<close>

text \<open>
  C4. For a non-empty input vector, computeNodeLogic returns the conjunction for AND, the
  disjunction for OR, their negations for NAND and NOR, the parity of the true entries for
  XOR and the negation of the first entry for NOT. For every kind other than INPUT_SWITCH
  and CLOCK an empty input vector yields false.
\<close>

theorem computeNodeLogic_truth_tables:
  assumes "v \<noteq> []" and "k \<noteq> INPUT_SWITCH" and "k \<noteq> CLOCK"
  shows "computeNodeLogic (node\<lparr>nodeType := AND\<rparr>) v = (\<forall>b \<in> set v. b) \<and>
         computeNodeLogic (node\<lparr>nodeType := OR\<rparr>) v = (\<exists>b \<in> set v. b) \<and>
         computeNodeLogic (node\<lparr>nodeType := NAND\<rparr>) v = (\<not> (\<forall>b \<in> set v. b)) \<and>
         computeNodeLogic (node\<lparr>nodeType := NOR\<rparr>) v = (\<not> (\<exists>b \<in> set v. b)) \<and>
         computeNodeLogic (node\<lparr>nodeType := XOR\<rparr>) v = odd (length (filter (\<lambda>b. b) v)) \<and>
         computeNodeLogic (node\<lparr>nodeType := NOT\<rparr>) v = (\<not> hd v) \<and>
         computeNodeLogic (node\<lparr>nodeType := k\<rparr>) [] = False"
  using assms
  by (cases v)
     (auto simp: computeNodeLogic_def firstInput_def truthy_def list_all_iff list_ex_iff
           odd_iff_mod_2_eq_one split: GateType.splits)

theorem computeNodeLogic_truth_tables_witness:
  "[True, False, True] \<noteq> [] \<and> OUTPUT_LAMP \<noteq> INPUT_SWITCH \<and> OUTPUT_LAMP \<noteq> CLOCK \<and>
   computeNodeLogic (gate ''g'' AND [] False) [True, False, True] = False \<and>
   computeNodeLogic (gate ''g'' OR [] False) [True, False, True] = True \<and>
   computeNodeLogic (gate ''g'' NAND [] False) [True, False, True] = True \<and>
   computeNodeLogic (gate ''g'' NOR [] False) [True, False, True] = False \<and>
   computeNodeLogic (gate ''g'' XOR [] False) [True, False, True] = False \<and>
   computeNodeLogic (gate ''g'' NOT [] False) [True, False, True] = False \<and>
   computeNodeLogic (gate ''g'' OUTPUT_LAMP [] False) [] = False"
  using computeNodeLogic_truth_tables [of "[True, False, True]" OUTPUT_LAMP "gate ''g'' XOR [] False"]
  by (simp add: gate_def)

section \<open>Stabilization: frame, consistency, floating inputs, dangling wires, idempotence\<close>

text \<open>
  C9. propagateCircuit leaves its input untouched and returns the same elements and
  connections. On the store model: every input array that existed before the call is
  unchanged after it (the store only grows); the objects returned, read in the final store,
  are the result of the functional model on the input read in the initial store; the
  returned lists have the lengths and order of the input; each returned node object is the
  input object with at most its input array (of the same length) and its output state
  replaced, and each returned wire is the input wire with at most its state replaced.
\<close>

theorem propagateCircuitS_frame:
  assumes "validRefs arrays nodes"
    and "propagateCircuitS arrays nodes wires = (arrays', nodes', wires')"
  shows "take (length arrays) arrays' = arrays \<and>
         (map (readNode arrays') nodes', wires') =
           propagateCircuit (map (readNode arrays) nodes) wires \<and>
         length nodes' = length nodes \<and> length wires' = length wires \<and>
         (\<forall>i < length nodes.
            nodes' ! i = (nodes ! i)\<lparr>objInputs := objInputs (nodes' ! i),
                                     objState := objState (nodes' ! i)\<rparr> \<and>
            length (arrays' ! objInputs (nodes' ! i)) = length (arrays ! objInputs (nodes ! i))) \<and>
         (\<forall>j < length wires. wires' ! j = (wires ! j)\<lparr>wireState := wireState (wires' ! j)\<rparr>)"
proof -
  obtain s' where run: "propagateLoopS False 0 arrays nodes wires = (s', arrays', nodes', wires')"
    using assms(2) unfolding propagateCircuitS_def
    by (cases "propagateLoopS False 0 arrays nodes wires") auto
  have r: "extends arrays arrays'"
    "(s', map (readNode arrays') nodes', wires') =
       propagateLoop False 0 (map (readNode arrays) nodes) wires"
    "list_all2 sameObj nodes nodes'"
    using propagateLoopS_refines [OF assms(1) run] by simp_all
  have pure: "(map (readNode arrays') nodes', wires') =
              propagateCircuit (map (readNode arrays) nodes) wires"
    unfolding propagateCircuit_def r(2) [symmetric] by simp
  have fr: "list_all2 sameNode (map (readNode arrays) nodes) (map (readNode arrays') nodes')"
    "list_all2 sameWire wires wires'"
    using propagateCircuit_frame_rel [of "map (readNode arrays) nodes" wires]
    unfolding pure [symmetric] by simp_all
  have len: "length nodes' = length nodes"
    using r(3) by (simp add: list_all2_lengthD)
  have objs: "nodes' ! i = (nodes ! i)\<lparr>objInputs := objInputs (nodes' ! i),
                                        objState := objState (nodes' ! i)\<rparr> \<and>
              length (arrays' ! objInputs (nodes' ! i)) = length (arrays ! objInputs (nodes ! i))"
    if i: "i < length nodes" for i
  proof -
    have "sameObj (nodes ! i) (nodes' ! i)"
      using r(3) i by (simp add: list_all2_conv_all_nth)
    moreover have "sameNode (readNode arrays (nodes ! i)) (readNode arrays' (nodes' ! i))"
      using fr(1) i len by (simp add: list_all2_conv_all_nth)
    ultimately show ?thesis
      using sameNode_inputs_length by (fastforce simp: sameObj_def)
  qed
  have ws: "length wires' = length wires \<and>
            (\<forall>j < length wires. wires' ! j = (wires ! j)\<lparr>wireState := wireState (wires' ! j)\<rparr>)"
    using fr(2) by (simp add: list_all2_conv_all_nth sameWire_def)
  show ?thesis
    using r(1) pure len objs ws by (simp add: extends_def)
qed

theorem propagateCircuitS_frame_witness:
  "list_all (\<lambda>n. objInputs n < length [ [], [False] ])
     [gateObj ''a'' INPUT_SWITCH 0 True, gateObj ''b'' NOT 1 True] \<and>
   propagateCircuitS [ [], [False] ]
     [gateObj ''a'' INPUT_SWITCH 0 True, gateObj ''b'' NOT 1 True]
     [wire ''w'' ''a'' ''b'' 0 False] =
     ([ [], [False], [True], [True] ],
      [gateObj ''a'' INPUT_SWITCH 0 True, gateObj ''b'' NOT 2 False],
      [wire ''w'' ''a'' ''b'' 0 True]) \<and>
   take (length [ [], [False] ]) [ [], [False], [True], [True] ] = [ [], [False] ] \<and>
   propagateCircuit [gate ''a'' INPUT_SWITCH [] True, gate ''b'' NOT [False] True]
     [wire ''w'' ''a'' ''b'' 0 False] =
     ([gate ''a'' INPUT_SWITCH [] True, gate ''b'' NOT [True] False],
      [wire ''w'' ''a'' ''b'' 0 True])"
proof -
  have v: "validRefs [ [], [False] ] [gateObj ''a'' INPUT_SWITCH 0 True, gateObj ''b'' NOT 1 True]"
    by (simp add: validRefs_def gateObj_def)
  have run: "propagateCircuitS [ [], [False] ]
     [gateObj ''a'' INPUT_SWITCH 0 True, gateObj ''b'' NOT 1 True]
     [wire ''w'' ''a'' ''b'' 0 False] =
     ([ [], [False], [True], [True] ],
      [gateObj ''a'' INPUT_SWITCH 0 True, gateObj ''b'' NOT 2 False],
      [wire ''w'' ''a'' ''b'' 0 True])"
    by code_simp
  have rd: "map (readNode [ [], [False] ]) [gateObj ''a'' INPUT_SWITCH 0 True, gateObj ''b'' NOT 1 True]
            = [gate ''a'' INPUT_SWITCH [] True, gate ''b'' NOT [False] True]"
    "map (readNode [ [], [False], [True], [True] ])
       [gateObj ''a'' INPUT_SWITCH 0 True, gateObj ''b'' NOT 2 False]
     = [gate ''a'' INPUT_SWITCH [] True, gate ''b'' NOT [True] False]"
    by (simp_all add: readNode_def gateObj_def gate_def)
  show ?thesis
    using propagateCircuitS_frame [OF v run] run rd by (simp add: gateObj_def)
qed

text \<open>
  C2. After any call of propagateCircuit every element other than a switch or a clock should
  satisfy output = f(kind, inputs), also when it starts with a stale output. The code does
  not establish this. Its comment reads \<^verbatim>\<open>If wires changed inputs, or we need to
  re-evaluate logic\<close>, but the guard is \<^verbatim>\<open>if (inputsChanged)\<close> alone, so an output that
  disagrees with unchanged inputs is never recomputed. Evaluated on three snapshots, each
  returned unchanged: a NOT gate as the editor places it (input [false], output false),
  where NOT(false) is true; the same gate fed by a switch that is off, as the circuit
  generator creates it; and an AND gate stored with inputs [false, false] and output true.
\<close>

theorem stale_output_kept:
  "propagateCircuit [gate ''n'' NOT [False] False] [] = ([gate ''n'' NOT [False] False], []) \<and>
   propagateCircuit [gate ''a'' INPUT_SWITCH [] False, gate ''n'' NOT [False] False]
                    [wire ''w'' ''a'' ''n'' 0 False] =
     ([gate ''a'' INPUT_SWITCH [] False, gate ''n'' NOT [False] False],
      [wire ''w'' ''a'' ''n'' 0 False]) \<and>
   nodeState (gate ''n'' NOT [False] False) = False \<and>
   computeNodeLogic (gate ''n'' NOT [False] False)
     (nodeInputs (gate ''n'' NOT [False] False)) = True \<and>
   propagateCircuit [gate ''g'' AND [False, False] True] [] =
     ([gate ''g'' AND [False, False] True], []) \<and>
   nodeState (gate ''g'' AND [False, False] True) = True \<and>
   computeNodeLogic (gate ''g'' AND [False, False] True)
     (nodeInputs (gate ''g'' AND [False, False] True)) = False"
  by (simp add: engine_eval)

text \<open>
  C5. Unconnected input pins are set to false in every round, and an AND gate with three
  input pins and no attached wires should have output false after propagateCircuit. The
  first part holds (\<open>floating_inputs_low\<close>). The second does not: on an unwired three-input
  AND gate stored with inputs [false, false, false] and output true no input entry changes,
  the guard \<^verbatim>\<open>if (inputsChanged)\<close> skips \<^verbatim>\<open>computeNodeLogic\<close>, and the gate is returned
  with output true, where AND(false, false, false) is false. Same defect as in C2.
\<close>

theorem stale_and_gate_kept:
  "propagateCircuit [gate ''g'' AND [False, False, False] True] [] =
     ([gate ''g'' AND [False, False, False] True], []) \<and>
   nodeType (gate ''g'' AND [False, False, False] True) = AND \<and>
   length (nodeInputs (gate ''g'' AND [False, False, False] True)) = 3 \<and>
   nodeState (gate ''g'' AND [False, False, False] True) = True \<and>
   computeNodeLogic (gate ''g'' AND [False, False, False] True)
     (nodeInputs (gate ''g'' AND [False, False, False] True)) = False"
  by (simp add: engine_eval)

text \<open>
  C7. A connection whose source or target id matches no element should be skipped and have
  no effect on the evaluation of any element. Phase 1 does skip a wire with a missing
  source (\<^verbatim>\<open>if (sourceNode)\<close>), and a wire with a missing target is never read
  (\<open>dangling_connections\<close>); the renderer and the hit test skip a wire when either end is
  missing. Phase 2 does not look at the source: it reads the stored state of every wire
  that targets the node. Evaluated on two snapshots with a wire from the missing id
  \<^verbatim>\<open>ghost\<close> to pin 0 of a lamp: with stored state true it lights the lamp, which stays dark
  without it; listed with stored state false before the wire of a switch that is on, it
  is the wire \<^verbatim>\<open>find\<close> returns for the pin, and the lamp stays dark, while it is lit
  without it.
\<close>

theorem dangling_source_read:
  "sourceNodeId (wire ''v'' ''ghost'' ''q'' 0 True) \<notin>
     nodeId ` set [gate ''q'' OUTPUT_LAMP [False] False] \<and>
   propagateCircuit [gate ''q'' OUTPUT_LAMP [False] False] [wire ''v'' ''ghost'' ''q'' 0 True] =
     ([gate ''q'' OUTPUT_LAMP [True] True], [wire ''v'' ''ghost'' ''q'' 0 True]) \<and>
   propagateCircuit [gate ''q'' OUTPUT_LAMP [False] False] [] =
     ([gate ''q'' OUTPUT_LAMP [False] False], []) \<and>
   sourceNodeId (wire ''v'' ''ghost'' ''q'' 0 False) \<notin>
     nodeId ` set [gate ''a'' INPUT_SWITCH [] True, gate ''q'' OUTPUT_LAMP [False] False] \<and>
   propagateCircuit [gate ''a'' INPUT_SWITCH [] True, gate ''q'' OUTPUT_LAMP [False] False]
     [wire ''v'' ''ghost'' ''q'' 0 False, wire ''u'' ''a'' ''q'' 0 False] =
     ([gate ''a'' INPUT_SWITCH [] True, gate ''q'' OUTPUT_LAMP [False] False],
      [wire ''v'' ''ghost'' ''q'' 0 False, wire ''u'' ''a'' ''q'' 0 True]) \<and>
   propagateCircuit [gate ''a'' INPUT_SWITCH [] True, gate ''q'' OUTPUT_LAMP [False] False]
     [wire ''u'' ''a'' ''q'' 0 False] =
     ([gate ''a'' INPUT_SWITCH [] True, gate ''q'' OUTPUT_LAMP [True] True],
      [wire ''u'' ''a'' ''q'' 0 True])"
  by (simp add: engine_eval)

text \<open>
  C3 (amended). If the wire graph is acyclic and no path has more than 19 wires (the ids
  can be ranked by naturals up to 19 so that every wire goes from a lower to a higher rank),
  a second call of propagateCircuit changes nothing.
\<close>

theorem propagateCircuit_idempotent:
  fixes rank :: "string \<Rightarrow> nat"
  assumes "\<forall>w \<in> set wires. rank (sourceNodeId w) < rank (targetNodeId w)"
    and "\<forall>w \<in> set wires. rank (targetNodeId w) \<le> 19"
    and "\<forall>n \<in> set nodes. rank (nodeId n) \<le> 19"
    and "propagateCircuit nodes wires = (nodes', wires')"
  shows "propagateCircuit nodes' wires' = (nodes', wires')"
proof -
  have "fixpoint (fst (propagateCircuit nodes wires)) (snd (propagateCircuit nodes wires))"
    by (rule propagateCircuit_ranked_fixpoint [of wires rank nodes])
       (use assms(1,2,3) in \<open>auto simp: MAX_ITERATIONS_def less_Suc_eq_le\<close>)
  then show ?thesis
    using assms(4) by (simp add: propagateCircuit_fixpoint)
qed

theorem propagateCircuit_idempotent_witness:
  "list_all (\<lambda>w. length (sourceNodeId w) < length (targetNodeId w))
     [wire ''w'' ''a'' ''bb'' 0 False] \<and>
   list_all (\<lambda>w. length (targetNodeId w) \<le> 19) [wire ''w'' ''a'' ''bb'' 0 False] \<and>
   list_all (\<lambda>n. length (nodeId n) \<le> 19)
     [gate ''a'' INPUT_SWITCH [] True, gate ''bb'' NOT [False] True] \<and>
   propagateCircuit [gate ''a'' INPUT_SWITCH [] True, gate ''bb'' NOT [False] True]
                    [wire ''w'' ''a'' ''bb'' 0 False] =
     ([gate ''a'' INPUT_SWITCH [] True, gate ''bb'' NOT [True] False], [wire ''w'' ''a'' ''bb'' 0 True]) \<and>
   propagateCircuit [gate ''a'' INPUT_SWITCH [] True, gate ''bb'' NOT [True] False]
                    [wire ''w'' ''a'' ''bb'' 0 True] =
     ([gate ''a'' INPUT_SWITCH [] True, gate ''bb'' NOT [True] False], [wire ''w'' ''a'' ''bb'' 0 True])"
proof -
  have run: "propagateCircuit [gate ''a'' INPUT_SWITCH [] True, gate ''bb'' NOT [False] True]
                    [wire ''w'' ''a'' ''bb'' 0 False] =
     ([gate ''a'' INPUT_SWITCH [] True, gate ''bb'' NOT [True] False], [wire ''w'' ''a'' ''bb'' 0 True])"
    by (simp add: engine_eval)
  have h: "\<forall>w \<in> set [wire ''w'' ''a'' ''bb'' 0 False]. length (sourceNodeId w) < length (targetNodeId w)"
    "\<forall>w \<in> set [wire ''w'' ''a'' ''bb'' 0 False]. length (targetNodeId w) \<le> 19"
    "\<forall>n \<in> set [gate ''a'' INPUT_SWITCH [] True, gate ''bb'' NOT [False] True]. length (nodeId n) \<le> 19"
    by (simp_all add: gate_def wire_def)
  show ?thesis
    using propagateCircuit_idempotent [of _ length, OF h run] h run by simp
qed

text \<open>
  C3, as stated, fails beyond the cap of 20 rounds: on the acyclic chain of 21 gates (a path
  of 20 wires) the first call stops before the last gate is reached and the second call
  changes the snapshot again.
\<close>

theorem deep_chain_counterexample:
  "list_all (\<lambda>w. length (sourceNodeId w) < length (targetNodeId w)) (chainWires 20) \<and>
   (case propagateCircuit (chainNodes 20) (chainWires 20) of
      (nodes', wires') \<Rightarrow> propagateCircuit nodes' wires' \<noteq> (nodes', wires'))"
  by code_simp

section \<open>Minimizer: equivalence and order independence\<close>

text \<open>
  C1. For numVars at least 1 (in particular 1, 2, 3, 4) and a duplicate-free list of
  minterms below 2 ^ numVars, solveQuineMcCluskey returns, and an assignment below
  2 ^ numVars satisfies the OR of the returned product terms if and only if it is one of the
  minterms.
\<close>

theorem solveQuineMcCluskey_equivalent:
  assumes "1 \<le> numVars" and "distinct minterms" and "\<forall>m \<in> set minterms. m < 2 ^ numVars"
  shows "\<exists>terms. solveQuineMcCluskey numVars minterms = Some terms \<and>
           (\<forall>a < 2 ^ numVars. evalTerms numVars terms a \<longleftrightarrow> a \<in> set minterms)"
proof (cases "length minterms = 0")
  case True
  then show ?thesis by (simp add: solveQuineMcCluskey_unfold evalTerms_def)
next
  case ne: False
  show ?thesis
  proof (cases "length minterms = 2 ^ numVars")
    case True
    have "set minterms = {..<2 ^ numVars}"
      using assms(2,3) True by (rule full_minterms)
    then show ?thesis
      using ne True by (auto simp: solveQuineMcCluskey_unfold evalTerms_def evalTerm_dashes)
  next
    case False
    let ?G = "initGroups numVars minterms"
    have wf: "\<forall>t \<in> set ?G. isTerm numVars 0 t"
      using assms(1,3) by (rule initGroups_isTerm)
    obtain r where r: "qmLoop ?G [] = Some r"
      "\<forall>t \<in> set r. t \<in> set [] \<or> (\<exists>j. isTerm numVars j t)"
      "\<forall>b. isBits numVars b \<longrightarrow>
         ((\<exists>t \<in> set r. covers t b) \<longleftrightarrow> (\<exists>t \<in> set ?G \<union> set []. covers t b))"
      using qmLoop_cover [OF wf, of "[]"] by blast
    have res: "solveQuineMcCluskey numVars minterms = Some (sort r)"
      using ne False r(1) by (simp add: solveQuineMcCluskey_unfold)
    have "evalTerms numVars (sort r) a \<longleftrightarrow> a \<in> set minterms" if a: "a < 2 ^ numVars" for a
    proof -
      have "covers t (binStr numVars a) \<longleftrightarrow> evalTerm numVars t a" if "t \<in> set r" for t
        using r(2) that covers_evalTerm by fastforce
      then have "evalTerms numVars (sort r) a \<longleftrightarrow> (\<exists>t \<in> set r. covers t (binStr numVars a))"
        unfolding evalTerms_def by simp
      also have "\<dots> \<longleftrightarrow> (\<exists>t \<in> set ?G. covers t (binStr numVars a))"
        using r(3) isBits_binStr by simp
      also have "\<dots> \<longleftrightarrow> (\<exists>m \<in> set minterms. covers (binStr numVars m) (binStr numVars a))"
        unfolding initGroups_set [OF assms(1,3)] by blast
      also have "\<dots> \<longleftrightarrow> a \<in> set minterms"
        using assms(3) a by (auto simp: covers_binStr)
      finally show ?thesis .
    qed
    then show ?thesis using res by blast
  qed
qed

theorem solveQuineMcCluskey_equivalent_witness:
  "(1::nat) \<le> 3 \<and> distinct [0, 1, 2, 3, 7 :: nat] \<and> list_all (\<lambda>m. m < 2 ^ 3) [0, 1, 2, 3, 7 :: nat] \<and>
   solveQuineMcCluskey 3 [0, 1, 2, 3, 7] = Some [''-11'', ''0--''] \<and>
   map (evalTerms 3 [''-11'', ''0--'']) [0, 1, 2, 3, 4, 5, 6, 7] =
     [True, True, True, True, False, False, False, True]"
proof -
  have h: "(1::nat) \<le> 3" "distinct [0, 1, 2, 3, 7 :: nat]"
    "\<forall>m \<in> set [0, 1, 2, 3, 7 :: nat]. m < 2 ^ 3"
    by simp_all
  have run: "solveQuineMcCluskey 3 [0, 1, 2, 3, 7] = Some [''-11'', ''0--'']"
    by code_simp
  have "\<forall>a < 2 ^ 3. evalTerms 3 [''-11'', ''0--''] a \<longleftrightarrow> a \<in> set [0, 1, 2, 3, 7 :: nat]"
    using solveQuineMcCluskey_equivalent [OF h] run by simp
  then have "map (evalTerms 3 [''-11'', ''0--'']) [0, 1, 2, 3, 4, 5, 6, 7] =
     [True, True, True, True, False, False, False, True]"
    by simp
  then show ?thesis using run by simp
qed

text \<open>
  C6. For numVars at least 1 and two duplicate-free lists holding the same set of minterms
  (values below 2 ^ numVars), the two calls of solveQuineMcCluskey return the same term
  sequence, and that sequence is sorted in lexicographic order.
\<close>

theorem solveQuineMcCluskey_order_independent:
  assumes "1 \<le> numVars" and "distinct ms" and "distinct ms'" and "set ms = set ms'"
    and "\<forall>m \<in> set ms. m < 2 ^ numVars"
  shows "\<exists>terms. solveQuineMcCluskey numVars ms = Some terms \<and>
           solveQuineMcCluskey numVars ms' = Some terms \<and> sorted terms"
proof -
  have len: "length ms = length ms'"
    using assms(2,3,4) by (metis distinct_card)
  have rng': "\<forall>m \<in> set ms'. m < 2 ^ numVars" using assms(4,5) by simp
  show ?thesis
  proof (cases "length ms = 0 \<or> length ms = 2 ^ numVars")
    case True
    then show ?thesis
      using len by (auto simp: solveQuineMcCluskey_unfold)
  next
    case False
    let ?G = "initGroups numVars ms" and ?G' = "initGroups numVars ms'"
    have wf: "\<forall>t \<in> set ?G. isTerm numVars 0 t"
      using assms(1,5) by (rule initGroups_isTerm)
    have wf': "\<forall>t \<in> set ?G'. isTerm numVars 0 t"
      using assms(1) rng' by (rule initGroups_isTerm)
    have G: "set ?G = set ?G'"
      using initGroups_set [OF assms(1,5)] initGroups_set [OF assms(1) rng'] assms(4) by simp
    obtain r r' where r: "qmLoop ?G [] = Some r" "qmLoop ?G' [] = Some r'" "set r = set r'"
      using qmLoop_order [OF wf G, of "[]" "[]"] by auto
    have "distinct r" using qmLoop_cover [OF wf, of "[]"] r(1) by auto
    moreover have "distinct r'" using qmLoop_cover [OF wf', of "[]"] r(2) by auto
    ultimately have "sort r = sort r'"
      using r(3) by (intro sorted_distinct_set_unique) simp_all
    then show ?thesis
      using False len r(1,2) by (simp add: solveQuineMcCluskey_unfold)
  qed
qed

theorem solveQuineMcCluskey_order_independent_witness:
  "(1::nat) \<le> 3 \<and> distinct [0, 1, 2, 3, 7 :: nat] \<and> distinct [7, 2, 0, 3, 1 :: nat] \<and>
   set [0, 1, 2, 3, 7 :: nat] = set [7, 2, 0, 3, 1] \<and>
   list_all (\<lambda>m. m < 2 ^ 3) [0, 1, 2, 3, 7 :: nat] \<and>
   solveQuineMcCluskey 3 [0, 1, 2, 3, 7] = Some [''-11'', ''0--''] \<and>
   solveQuineMcCluskey 3 [7, 2, 0, 3, 1] = Some [''-11'', ''0--''] \<and>
   sorted [''-11'', ''0--'']"
proof -
  have h: "(1::nat) \<le> 3" "distinct [0, 1, 2, 3, 7 :: nat]" "distinct [7, 2, 0, 3, 1 :: nat]"
    "set [0, 1, 2, 3, 7 :: nat] = set [7, 2, 0, 3, 1]"
    "\<forall>m \<in> set [0, 1, 2, 3, 7 :: nat]. m < 2 ^ 3"
    by auto
  have run: "solveQuineMcCluskey 3 [0, 1, 2, 3, 7] = Some [''-11'', ''0--'']"
    by code_simp
  show ?thesis
    using solveQuineMcCluskey_order_independent [OF h] run h(4) by simp
qed

section \<open>Synthesizer: input switches and index bounds\<close>



section \<open>Loading: validation and rejection\<close>

text \<open>
  C8. handleLoadProject accepts a document exactly when it parses and both \<open>nodes\<close> and
  \<open>wires\<close> are present as arrays: then they become the model and no alert is raised.
  For every other document (also one that fails to parse) an alert is raised and nodes,
  wires, camera and selection stay as they were.
\<close>

theorem handleLoadProject_validates:
  "(validDocument (jsonParse content) \<longrightarrow>
      getProperty (the (jsonParse content)) ''nodes'' =
        Value (JArray (appNodes (handleLoadProject jsonParse content st))) \<and>
      getProperty (the (jsonParse content)) ''wires'' =
        Value (JArray (appWires (handleLoadProject jsonParse content st))) \<and>
      appAlerts (handleLoadProject jsonParse content st) = appAlerts st) \<and>
   (\<not> validDocument (jsonParse content) \<longrightarrow>
      appNodes (handleLoadProject jsonParse content st) = appNodes st \<and>
      appWires (handleLoadProject jsonParse content st) = appWires st \<and>
      appCamera (handleLoadProject jsonParse content st) = appCamera st \<and>
      appSelectedNodeIds (handleLoadProject jsonParse content st) = appSelectedNodeIds st \<and>
      appSelectedWireIds (handleLoadProject jsonParse content st) = appSelectedWireIds st \<and>
      (\<exists>msg. appAlerts (handleLoadProject jsonParse content st) = appAlerts st @ [msg]))"
  by (auto simp: handleLoadProject_def validDocument_def getProperty_def isArray_def arrayItems_def
        loadFailed_def Let_def
      split: option.splits json.splits property.splits if_splits)

theorem handleLoadProject_validates_witness:
  "validDocument (Some (JObject [(''nodes'', JArray [JNull]), (''wires'', JArray [])])) \<and>
   appNodes (handleLoadProject
     (\<lambda>c. Some (JObject [(''nodes'', JArray [JNull]), (''wires'', JArray [])])) ''{}''
     (initialAppState\<lparr>appNodes := [JString ''old'']\<rparr>)) = [JNull] \<and>
   \<not> validDocument (Some (JObject [(''nodes'', JArray [JNull])])) \<and>
   appNodes (handleLoadProject (\<lambda>c. Some (JObject [(''nodes'', JArray [JNull])])) ''{}''
     (initialAppState\<lparr>appNodes := [JString ''old'']\<rparr>)) = [JString ''old''] \<and>
   \<not> validDocument None \<and>
   appNodes (handleLoadProject (\<lambda>c. None) ''{''
     (initialAppState\<lparr>appNodes := [JString ''old'']\<rparr>)) = [JString ''old'']"
proof -
  have v: "validDocument (Some (JObject [(''nodes'', JArray [JNull]), (''wires'', JArray [])]))"
    and i: "\<not> validDocument (Some (JObject [(''nodes'', JArray [JNull])]))"
    and n: "\<not> validDocument None"
    by (simp_all add: validDocument_def)
  show ?thesis
    using v i n
      handleLoadProject_validates
        [of "\<lambda>c. Some (JObject [(''nodes'', JArray [JNull]), (''wires'', JArray [])])" "''{}''"
            "initialAppState\<lparr>appNodes := [JString ''old'']\<rparr>"]
      handleLoadProject_validates
        [of "\<lambda>c. Some (JObject [(''nodes'', JArray [JNull])])" "''{}''"
            "initialAppState\<lparr>appNodes := [JString ''old'']\<rparr>"]
      handleLoadProject_validates
        [of "\<lambda>c. None" "''{''" "initialAppState\<lparr>appNodes := [JString ''old'']\<rparr>"]
    by (simp add: getProperty_def initialAppState_def)
qed


end
